theory Spec2Isabelle
  imports Main "HOL-Library.Sublist"
begin

section \<open>The SQL statement splitter of deploy\_schemas.py\<close>

text \<open>
  The method \<^verbatim>\<open>_split_sql_statements\<close> of \<^verbatim>\<open>src/deploy_schemas.py\<close> is a pure
  function from a text to a list of texts. It runs four phases in this order:
  \<^enum> deletion of single-line comments (\<^verbatim>\<open>re.sub(r'--.*?$', '', ..., re.MULTILINE)\<close>);
  \<^enum> deletion of the multi-line comments that hold no protected marker
    (\<^verbatim>\<open>re.sub(r'/\*.*?\*/', remove_comments, ..., re.DOTALL)\<close>);
  \<^enum> whitespace normalisation (strip every line, drop the blank ones, join with a line feed);
  \<^enum> the character scan with its three flags, the trailing statement and the final
    list comprehension.

  A text is a \<^typ>\<open>string\<close>: a list of characters, each a code point below 256 (Latin-1).
  The character classes of Python (\<^verbatim>\<open>str.strip\<close>, \<^verbatim>\<open>str.splitlines\<close>, \<^verbatim>\<open>str.upper\<close>)
  are written out for these code points.
\<close>

subsection \<open>Character classes and string primitives of Python\<close>

definition is_space :: "char \<Rightarrow> bool" where
  \<comment> \<open>the characters removed by \<^verbatim>\<open>str.strip()\<close>: tab, LF, VT, FF, CR, FS, GS, RS, US, space,
      NEL and the no-break space\<close>
  "is_space c \<longleftrightarrow> c \<in> set [CHR 0x09, CHR 0x0A, CHR 0x0B, CHR 0x0C, CHR 0x0D, CHR 0x1C,
                          CHR 0x1D, CHR 0x1E, CHR 0x1F, CHR 0x20, CHR 0x85, CHR 0xA0]"

definition is_linebreak :: "char \<Rightarrow> bool" where
  \<comment> \<open>the line boundaries of \<^verbatim>\<open>str.splitlines()\<close>: LF, CR, VT, FF, FS, GS, RS, NEL\<close>
  "is_linebreak c \<longleftrightarrow> c \<in> set [CHR 0x0A, CHR 0x0D, CHR 0x0B, CHR 0x0C, CHR 0x1C,
                              CHR 0x1D, CHR 0x1E, CHR 0x85]"

definition strip :: "string \<Rightarrow> string" where
  \<comment> \<open>\<^verbatim>\<open>s.strip()\<close>\<close>
  "strip s = rev (dropWhile is_space (rev (dropWhile is_space s)))"

definition upper_char :: "char \<Rightarrow> string" where
  \<comment> \<open>\<^verbatim>\<open>c.upper()\<close> for one character. The sharp s (0xDF) becomes two letters. The micro sign
      (0xB5) and the y with diaeresis (0xFF) have their capitals above 255; they stand for
      themselves here, which no comparison of this program can tell apart, since every text
      compared with an uppercased one is made of ASCII capitals and the space.\<close>
  "upper_char c =
     (let n = (of_char c :: nat) in
      if 97 \<le> n \<and> n \<le> 122 then [char_of (n - 32)]
      else if n = 223 then ''SS''
      else if 224 \<le> n \<and> n \<le> 254 \<and> n \<noteq> 247 then [char_of (n - 32)]
      else [c])"

definition upper :: "string \<Rightarrow> string" where
  \<comment> \<open>\<^verbatim>\<open>s.upper()\<close>\<close>
  "upper s = concat (map upper_char s)"

definition startswith :: "string \<Rightarrow> string \<Rightarrow> bool" where
  \<comment> \<open>\<^verbatim>\<open>s.startswith(p)\<close>\<close>
  "startswith s p \<longleftrightarrow> take (length p) s = p"

definition endswith :: "string \<Rightarrow> string \<Rightarrow> bool" where
  \<comment> \<open>\<^verbatim>\<open>s.endswith(p)\<close>\<close>
  "endswith s p \<longleftrightarrow> startswith (rev s) (rev p)"

fun contains :: "string \<Rightarrow> string \<Rightarrow> bool" where
  \<comment> \<open>\<^verbatim>\<open>x in s\<close> for two texts: \<^verbatim>\<open>x\<close> occurs in \<^verbatim>\<open>s\<close> as a contiguous run\<close>
  "contains [] x = (x = [])"
| "contains (c # cs) x = (startswith (c # cs) x \<or> contains cs x)"

subsection \<open>Phase 1: single-line comments\<close>

text \<open>
  \<^verbatim>\<open>re.sub(r'--.*?$', '', sql_content, flags=re.MULTILINE)\<close>. Without \<^verbatim>\<open>DOTALL\<close> the dot
  matches every character but the line feed, and with \<^verbatim>\<open>MULTILINE\<close> the dollar matches
  at the end of the text and before a line feed: the leftmost match at two dashes runs
  to the next line feed (left in place) or to the end of the text, and the search goes on
  behind it.
\<close>

function strip_line_comments :: "string \<Rightarrow> string" where
  "strip_line_comments [] = []"
| "strip_line_comments (c # cs) =
     (if startswith (c # cs) ''--''
      then strip_line_comments (dropWhile (\<lambda>x. x \<noteq> CHR 0x0A) cs)
      else c # strip_line_comments cs)"
  by pat_completeness auto
termination
  by (relation "measure length") (auto simp: less_Suc_eq_le length_dropWhile_le)

subsection \<open>Phase 2: multi-line comments\<close>

definition remove_comments :: "string \<Rightarrow> string" where
  \<comment> \<open>the replacement function, applied to the matched text\<close>
  "remove_comments content =
     (if list_ex (\<lambda>x. contains (upper content) x) [''TBLPROPERTIES'', ''CREATE '', ''SCHEMA '']
      then content else [])"

fun find_close :: "string \<Rightarrow> string \<Rightarrow> (string \<times> string) option" where
  \<comment> \<open>the lazy \<^verbatim>\<open>.*?\*/\<close> behind an opening \<^verbatim>\<open>/*\<close>: the text up to the first \<^verbatim>\<open>*/\<close>,
      and the text behind that \<^verbatim>\<open>*/\<close>; \<open>None\<close> when there is no \<^verbatim>\<open>*/\<close>\<close>
  "find_close body [] = None"
| "find_close body (c # cs) =
     (if startswith (c # cs) ''*/'' then Some (body, drop 1 cs)
      else find_close (body @ [c]) cs)"

lemma find_close_length:
  "find_close body s = Some (b, r) \<Longrightarrow> length r < length s"
proof (induction s arbitrary: body)
  case Nil
  then show ?case by simp
next
  case (Cons a s)
  show ?case
  proof (cases "startswith (a # s) ''*/''")
    case True
    with Cons.prems show ?thesis by auto
  next
    case False
    with Cons.prems have "find_close (body @ [a]) s = Some (b, r)" by simp
    from Cons.IH [OF this] show ?thesis by simp
  qed
qed

text \<open>
  \<^verbatim>\<open>re.sub(r'/\*.*?\*/', remove_comments, sql_content, flags=re.DOTALL)\<close>: the leftmost
  \<^verbatim>\<open>/*\<close> that has a \<^verbatim>\<open>*/\<close> behind it is matched up to the first such \<^verbatim>\<open>*/\<close>, the match is
  replaced by what \<^verbatim>\<open>remove_comments\<close> returns for it, and the search goes on behind the
  match. A \<^verbatim>\<open>/*\<close> with no \<^verbatim>\<open>*/\<close> behind it is no match and is copied.
\<close>

function strip_block_comments :: "string \<Rightarrow> string" where
  "strip_block_comments [] = []"
| "strip_block_comments (c # cs) =
     (if startswith (c # cs) ''/*'' then
        (case find_close [] (drop 1 cs) of
           Some (body, rest) \<Rightarrow>
             remove_comments (''/*'' @ body @ ''*/'') @ strip_block_comments rest
         | None \<Rightarrow> c # strip_block_comments cs)
      else c # strip_block_comments cs)"
  by pat_completeness auto
termination
proof (relation "measure length")
  fix c cs x2 body rest
  assume "find_close [] (drop 1 cs) = Some x2" and "(body, rest) = x2"
  then have "length rest < length (drop 1 cs)"
    using find_close_length by metis
  then show "(rest, c # cs) \<in> measure length" by simp
qed auto

subsection \<open>Phase 3: whitespace normalisation\<close>

fun splitlines :: "string \<Rightarrow> string \<Rightarrow> string list" where
  \<comment> \<open>\<^verbatim>\<open>s.splitlines()\<close>, the first argument being the line read so far: CR LF is one
      boundary, and a text that ends in a boundary has no empty last line\<close>
  "splitlines line [] = (if line = [] then [] else [line])"
| "splitlines line [c] =
     (if is_linebreak c then [line] else [line @ [c]])"
| "splitlines line (c # d # cs) =
     (if c = CHR 0x0D \<and> d = CHR 0x0A then line # splitlines [] cs
      else if is_linebreak c then line # splitlines [] (d # cs)
      else splitlines (line @ [c]) (d # cs))"

fun join_lines :: "string list \<Rightarrow> string" where
  \<comment> \<open>\<^verbatim>\<open>'\n'.join(lines)\<close>\<close>
  "join_lines [] = []"
| "join_lines [l] = l"
| "join_lines (l # m # ls) = l @ CHR 0x0A # join_lines (m # ls)"

definition normalize_whitespace :: "string \<Rightarrow> string" where
  \<comment> \<open>\<^verbatim>\<open>'\n'.join(line.strip() for line in sql_content.splitlines() if line.strip())\<close>\<close>
  "normalize_whitespace s =
     join_lines (map strip (filter (\<lambda>line. strip line \<noteq> []) (splitlines [] s)))"

subsection \<open>Phase 4: the character scan\<close>

record scan_state =
  statements :: "string list"
  current :: string
  in_string :: bool
  in_tblproperties :: bool
  string_delimiter :: "char option"

definition init_state :: scan_state where
  "init_state = \<lparr>statements = [], current = [], in_string = False,
                 in_tblproperties = False, string_delimiter = None\<rparr>"

definition tbl_keyword :: "string \<Rightarrow> bool" where
  \<comment> \<open>\<^verbatim>\<open>sql_content[i:i+13].upper() == 'TBLPROPERTIES'\<close>, the argument being \<^verbatim>\<open>sql_content[i:]\<close>\<close>
  "tbl_keyword s \<longleftrightarrow> upper (take 13 s) = ''TBLPROPERTIES''"

definition emit :: "string \<Rightarrow> string list \<Rightarrow> string list" where
  \<comment> \<open>\<^verbatim>\<open>stmt = current.strip()\<close>, then \<^verbatim>\<open>if stmt: statements.append(stmt)\<close>\<close>
  "emit cur stmts = (let stmt = strip cur in if stmt \<noteq> [] then stmts @ [stmt] else stmts)"

fun step :: "scan_state \<Rightarrow> string \<Rightarrow> scan_state" where
  \<comment> \<open>one pass of the loop body at index \<^verbatim>\<open>i\<close>; the second argument is \<^verbatim>\<open>sql_content[i:]\<close>,
      whose first character is \<^verbatim>\<open>char\<close>\<close>
  "step st [] = st"
| "step st (c # cs) =
     (let st1 = (if tbl_keyword (c # cs) then st\<lparr>in_tblproperties := True\<rparr> else st) in
      if c \<in> set [CHR 0x27, CHR 0x22, CHR 0x60] \<and> \<not> in_string st1 \<and> \<not> in_tblproperties st1 then
        st1\<lparr>in_string := True, string_delimiter := Some c, current := current st1 @ [c]\<rparr>
      else if Some c = string_delimiter st1 \<and> in_string st1 \<and> \<not> in_tblproperties st1 then
        st1\<lparr>in_string := False, current := current st1 @ [c]\<rparr>
      else if c = CHR '';'' \<and> \<not> in_string st1 \<and> \<not> in_tblproperties st1 then
        st1\<lparr>statements := emit (current st1) (statements st1), current := []\<rparr>
      else if c = CHR '')'' \<and> in_tblproperties st1 then
        st1\<lparr>in_tblproperties := False,
            statements := emit (current st1 @ [c]) (statements st1), current := []\<rparr>
      else st1\<lparr>current := current st1 @ [c]\<rparr>)"

fun scan_loop :: "scan_state \<Rightarrow> string \<Rightarrow> string \<Rightarrow> scan_state" where
  \<comment> \<open>the \<^verbatim>\<open>for i, char in enumerate(sql_content)\<close> loop over the characters of the second
      argument, the text behind them being the third (the 13-character slice reads into it)\<close>
  "scan_loop st [] post = st"
| "scan_loop st (c # cs) post = scan_loop (step st (c # cs @ post)) cs post"

definition terminate :: "string \<Rightarrow> string" where
  \<comment> \<open>\<^verbatim>\<open>s + ';' if not s.endswith(';') else s\<close>\<close>
  "terminate s = (if \<not> endswith s '';'' then s @ '';'' else s)"

definition finish :: "scan_state \<Rightarrow> string list" where
  \<comment> \<open>the code behind the loop: the remaining content, then the list comprehension\<close>
  "finish st =
     (let stmts = (if strip (current st) \<noteq> [] then statements st @ [strip (current st)]
                   else statements st)
      in map terminate (filter (\<lambda>s. strip s \<noteq> []) stmts))"

definition split_statements :: "string \<Rightarrow> string list" where
  \<comment> \<open>phase 4 alone: the splitter applied to a text whose comments are already processed\<close>
  "split_statements text = finish (scan_loop init_state text [])"

definition split_sql_statements :: "string \<Rightarrow> string list" where
  \<comment> \<open>the whole method \<^verbatim>\<open>_split_sql_statements\<close>\<close>
  "split_sql_statements sql_content =
     split_statements
       (normalize_whitespace (strip_block_comments (strip_line_comments sql_content)))"

subsection \<open>Notions used to state the properties\<close>

fun no_keyword :: "string \<Rightarrow> string \<Rightarrow> bool" where
  \<comment> \<open>at no index of the first text, the second one behind it, does the loop find the keyword\<close>
  "no_keyword [] post = True"
| "no_keyword (c # cs) post = (\<not> tbl_keyword (c # cs @ post) \<and> no_keyword cs post)"

definition state_ok :: "scan_state \<Rightarrow> bool" where
  \<comment> \<open>what holds of every state the loop reaches from the initial one: the statements
      collected so far are stripped, not empty and end in no semicolon; an open literal has one
      of the three delimiters; outside literal and region the buffer, stripped, ends in no
      semicolon\<close>
  "state_ok st \<longleftrightarrow>
     (\<forall>s \<in> set (statements st). s \<noteq> [] \<and> strip s = s \<and> \<not> endswith s '';'')
     \<and> (in_string st \<longrightarrow>
          (\<exists>d \<in> set [CHR 0x27, CHR 0x22, CHR 0x60]. string_delimiter st = Some d))
     \<and> (\<not> in_string st \<and> \<not> in_tblproperties st \<longrightarrow> \<not> endswith (strip (current st)) '';'')"

text \<open>
  Three counters run along the loop and look at the state before each pass. At a semicolon
  and at a closing parenthesis the keyword test fails, so the region flag before the pass is
  the one the branches see.
\<close>

fun count_semicolons :: "scan_state \<Rightarrow> string \<Rightarrow> string \<Rightarrow> nat" where
  \<comment> \<open>the semicolons met outside a literal and outside a region\<close>
  "count_semicolons st [] post = 0"
| "count_semicolons st (c # cs) post =
     (if c = CHR '';'' \<and> \<not> in_string st \<and> \<not> in_tblproperties st then 1 else 0) +
     count_semicolons (step st (c # cs @ post)) cs post"

fun count_emitting_semicolons :: "scan_state \<Rightarrow> string \<Rightarrow> string \<Rightarrow> nat" where
  \<comment> \<open>those of them met while the buffer holds more than whitespace\<close>
  "count_emitting_semicolons st [] post = 0"
| "count_emitting_semicolons st (c # cs) post =
     (if c = CHR '';'' \<and> \<not> in_string st \<and> \<not> in_tblproperties st \<and> strip (current st) \<noteq> []
      then 1 else 0) +
     count_emitting_semicolons (step st (c # cs @ post)) cs post"

fun count_closures :: "scan_state \<Rightarrow> string \<Rightarrow> string \<Rightarrow> nat" where
  \<comment> \<open>the closing parentheses met inside a region\<close>
  "count_closures st [] post = 0"
| "count_closures st (c # cs) post =
     (if c = CHR '')'' \<and> in_tblproperties st then 1 else 0) +
     count_closures (step st (c # cs @ post)) cs post"

definition trailing_content :: "scan_state \<Rightarrow> nat" where
  \<comment> \<open>1 when the buffer left behind the loop holds more than whitespace, else 0\<close>
  "trailing_content st = (if strip (current st) \<noteq> [] then 1 else 0)"

text \<open>
  The notions below serve the comparison of a scan with the scan of its own result.
\<close>

definition is_alpha :: "char \<Rightarrow> bool" where
  \<comment> \<open>an ASCII letter\<close>
  "is_alpha c \<longleftrightarrow>
     (let n = (of_char c :: nat) in (65 \<le> n \<and> n \<le> 90) \<or> (97 \<le> n \<and> n \<le> 122))"

definition capital :: "char \<Rightarrow> bool" where
  \<comment> \<open>an ASCII capital letter\<close>
  "capital y \<longleftrightarrow> 65 \<le> (of_char y :: nat) \<and> (of_char y :: nat) \<le> 90"

definition inert :: "string \<Rightarrow> bool" where
  \<comment> \<open>a text that cannot continue a keyword begun before it\<close>
  "inert p \<longleftrightarrow> p = [] \<or> \<not> is_alpha (hd p)"

definition boundary :: "scan_state \<Rightarrow> char \<Rightarrow> bool" where
  \<comment> \<open>in this state, the pass at this character resets the buffer: a semicolon outside
      literal and region, or a closing parenthesis inside a region\<close>
  "boundary st c \<longleftrightarrow>
     (c = CHR '';'' \<and> \<not> in_string st \<and> \<not> in_tblproperties st)
     \<or> (c = CHR '')'' \<and> in_tblproperties st)"

fun quiet :: "scan_state \<Rightarrow> string \<Rightarrow> string \<Rightarrow> bool" where
  \<comment> \<open>the loop over the second argument meets no boundary\<close>
  "quiet st [] post = True"
| "quiet st (c # cs) post = (\<not> boundary st c \<and> quiet (step st (c # cs @ post)) cs post)"

definition same_mode :: "scan_state \<Rightarrow> scan_state \<Rightarrow> bool" where
  \<comment> \<open>two states agree on the flags, and on the delimiter when a literal is open\<close>
  "same_mode st st' \<longleftrightarrow>
     in_string st = in_string st' \<and> in_tblproperties st = in_tblproperties st'
     \<and> (in_string st \<longrightarrow> string_delimiter st = string_delimiter st')"

definition clean :: "scan_state \<Rightarrow> bool" where
  \<comment> \<open>outside literal and region, with an empty buffer: the state behind a boundary\<close>
  "clean st \<longleftrightarrow> \<not> in_string st \<and> \<not> in_tblproperties st \<and> current st = []"

fun closes_in_literal :: "scan_state \<Rightarrow> string \<Rightarrow> string \<Rightarrow> bool" where
  \<comment> \<open>somewhere in the second argument the loop closes a region while a literal is open\<close>
  "closes_in_literal st [] post = False"
| "closes_in_literal st (c # cs) post =
     ((c = CHR '')'' \<and> in_tblproperties st \<and> in_string st)
      \<or> closes_in_literal (step st (c # cs @ post)) cs post)"

text \<open>
  The notions below describe the texts that the first three phases leave unchanged.
\<close>

fun has_pair :: "(char \<Rightarrow> char \<Rightarrow> bool) \<Rightarrow> string \<Rightarrow> bool" where
  \<comment> \<open>two neighbours in the text satisfy the relation\<close>
  "has_pair B (a # b # r) = (B a b \<or> has_pair B (b # r))"
| "has_pair B r = False"

definition break_pair :: "char \<Rightarrow> char \<Rightarrow> bool" where
  \<comment> \<open>a line feed next to whitespace\<close>
  "break_pair a b \<longleftrightarrow> (a = CHR 0x0A \<and> is_space b) \<or> (b = CHR 0x0A \<and> is_space a)"

definition normal :: "string \<Rightarrow> bool" where
  \<comment> \<open>lines that are not blank and carry no whitespace at their ends, joined by line feeds,
      with no other line boundary\<close>
  "normal s \<longleftrightarrow>
     (\<forall>c \<in> set s. is_linebreak c \<longrightarrow> c = CHR 0x0A)
     \<and> \<not> has_pair break_pair s
     \<and> (s \<noteq> [] \<longrightarrow> \<not> is_space (hd s) \<and> \<not> is_space (last s))"

fun split_lf :: "string \<Rightarrow> string \<Rightarrow> string list" where
  \<comment> \<open>the lines of a text whose only line boundary is the line feed\<close>
  "split_lf line [] = (if line = [] then [] else [line])"
| "split_lf line (c # cs) =
     (if c = CHR 0x0A then line # split_lf [] cs else split_lf (line @ [c]) cs)"

section \<open>Facts about the primitives\<close>

lemma upper_char_not_Nil [simp]: "upper_char c \<noteq> []"
  by (simp add: upper_char_def Let_def)

lemma upper_char_hd_T:
  assumes "hd (upper_char c) = CHR ''T''"
  shows "c = CHR ''t'' \<or> c = CHR ''T''"
proof -
  let ?n = "of_char c :: nat"
  have lt: "?n < 256" by simp
  have shifted: "?n = 116" if "char_of (?n - 32) = CHR ''T''"
  proof -
    from that have "(of_char (char_of (?n - 32) :: char) :: nat) = of_char CHR ''T''"
      by simp
    then have "(?n - 32) mod 256 = 84" by simp
    moreover from lt have "?n - 32 < 256" by linarith
    ultimately have "?n - 32 = 84" by (simp only: mod_less)
    then show ?thesis by linarith
  qed
  have low: "c = CHR ''t''" if "?n = 116"
  proof -
    from that have "?n = of_char CHR ''t''" by simp
    then show ?thesis by (simp only: of_char_eq_iff)
  qed
  consider (lower) "97 \<le> ?n \<and> ?n \<le> 122" | (ss) "?n = 223" 
    | (lat) "224 \<le> ?n \<and> ?n \<le> 254 \<and> ?n \<noteq> 247" 
    | (other) "\<not> (97 \<le> ?n \<and> ?n \<le> 122) \<and> ?n \<noteq> 223 \<and> \<not> (224 \<le> ?n \<and> ?n \<le> 254 \<and> ?n \<noteq> 247)"
    by blast
  then show ?thesis
  proof cases
    case lower
    then have "upper_char c = [char_of (?n - 32)]" by (simp add: upper_char_def Let_def)
    with assms shifted low show ?thesis by simp
  next
    case ss
    then have "upper_char c = ''SS''" by (simp add: upper_char_def Let_def)
    with assms show ?thesis by simp
  next
    case lat
    then have "upper_char c = [char_of (?n - 32)]" by (simp add: upper_char_def Let_def)
    with assms shifted have "?n = 116" by simp
    with lat show ?thesis by linarith
  next
    case other
    then have a: "\<not> (97 \<le> ?n \<and> ?n \<le> 122)" and b: "?n \<noteq> 223"
      and c: "\<not> (224 \<le> ?n \<and> ?n \<le> 254 \<and> ?n \<noteq> 247)" by blast+
    have "upper_char c = [c]"
      unfolding upper_char_def Let_def by (simp only: a b c if_False)
    with assms show ?thesis by simp
  qed
qed

lemma tbl_keyword_hd:
  assumes "tbl_keyword (c # cs)"
  shows "c = CHR ''t'' \<or> c = CHR ''T''"
proof -
  from assms have "upper_char c @ upper (take 12 cs) = ''TBLPROPERTIES''"
    by (simp add: tbl_keyword_def upper_def)
  then have "hd (upper_char c @ upper (take 12 cs)) = CHR ''T''" by simp
  then have "hd (upper_char c) = CHR ''T''" by simp
  then show ?thesis by (rule upper_char_hd_T)
qed

lemma not_tbl_keyword_Nil [simp]: "\<not> tbl_keyword []"
  by (simp add: tbl_keyword_def upper_def)

lemma tbl_keyword_hd_facts:
  assumes "tbl_keyword (c # cs)"
  shows "\<not> is_space c" and "c \<noteq> CHR '';''" and "c \<noteq> CHR '')''"
    and "c \<notin> set [CHR 0x27, CHR 0x22, CHR 0x60]"
  using tbl_keyword_hd [OF assms] by (auto simp: is_space_def)

text \<open>The keyword test looks at the first character before it uppercases the slice.\<close>

lemma tbl_keyword_code [code]:
  "tbl_keyword s =
     (case s of [] \<Rightarrow> False
      | c # cs \<Rightarrow> (c = CHR ''T'' \<or> c = CHR ''t'') \<and> upper (take 13 (c # cs)) = ''TBLPROPERTIES'')"
proof (cases s)
  case Nil
  then show ?thesis by simp
next
  case (Cons c cs)
  show ?thesis
  proof (cases "tbl_keyword (c # cs)")
    case True
    with tbl_keyword_hd [OF True] Cons show ?thesis by (auto simp: tbl_keyword_def)
  next
    case False
    with Cons show ?thesis by (auto simp: tbl_keyword_def)
  qed
qed

lemma strip_Nil [simp]: "strip [] = []"
  by (simp add: strip_def)

lemma all_dropWhile_iff: "(\<forall>x \<in> set (dropWhile P s). P x) \<longleftrightarrow> (\<forall>x \<in> set s. P x)"
  by (induction s) auto

lemma strip_eq_Nil_iff: "strip s = [] \<longleftrightarrow> (\<forall>c \<in> set s. is_space c)"
  by (simp add: strip_def dropWhile_eq_Nil_conv all_dropWhile_iff)

lemma strip_snoc_nonspace:
  "\<not> is_space c \<Longrightarrow> strip (s @ [c]) = dropWhile is_space s @ [c]"
  by (cases "\<forall>x \<in> set s. is_space x") (auto simp: strip_def dropWhile_append)

lemma strip_snoc_space: "is_space c \<Longrightarrow> strip (s @ [c]) = strip s"
proof (cases "\<forall>x \<in> set s. is_space x")
  case True
  assume "is_space c"
  with True have "strip (s @ [c]) = []" and "strip s = []"
    by (simp_all add: strip_eq_Nil_iff)
  then show ?thesis by simp
next
  case False
  assume c: "is_space c"
  from False have "dropWhile is_space (s @ [c]) = dropWhile is_space s @ [c]"
    by (simp only: dropWhile_append if_False)
  with c show ?thesis by (simp add: strip_def)
qed

lemma strip_Cons_space: "is_space c \<Longrightarrow> strip (c # s) = strip s"
  by (simp add: strip_def)

lemma strip_hd: "strip s \<noteq> [] \<Longrightarrow> \<not> is_space (hd (strip s))"
proof -
  assume ne: "strip s \<noteq> []"
  let ?r = "rev (dropWhile is_space s)"
  have d: "dropWhile is_space ?r \<noteq> []" using ne by (simp add: strip_def)
  then have "\<not> is_space (hd (dropWhile is_space ?r))" by (rule hd_dropWhile)
  have "dropWhile is_space s \<noteq> []" using d by (cases "dropWhile is_space s") auto
  then have h: "\<not> is_space (hd (dropWhile is_space s))" by (rule hd_dropWhile)
  obtain x xs where x: "dropWhile is_space s = x # xs"
    using \<open>dropWhile is_space s \<noteq> []\<close> by (cases "dropWhile is_space s") auto
  with h have nx: "\<not> is_space x" by simp
  have "strip s = rev (dropWhile is_space (rev xs @ [x]))" by (simp add: strip_def x)
  also have "\<dots> = rev (dropWhile is_space (rev xs) @ [x])"
    using nx by (simp add: dropWhile_append)
  finally show ?thesis using nx by simp
qed

lemma strip_last: "strip s \<noteq> [] \<Longrightarrow> \<not> is_space (last (strip s))"
proof -
  assume ne: "strip s \<noteq> []"
  let ?r = "rev (dropWhile is_space s)"
  have d: "dropWhile is_space ?r \<noteq> []" using ne by (simp add: strip_def)
  then have "\<not> is_space (hd (dropWhile is_space ?r))" by (rule hd_dropWhile)
  with d show ?thesis by (simp add: strip_def last_rev)
qed

lemma strip_idem: "strip (strip s) = strip s"
proof (cases "strip s = []")
  case True
  then show ?thesis by simp
next
  case False
  then obtain x xs where x: "strip s = x # xs" by (cases "strip s") auto
  with strip_hd [OF False] have nx: "\<not> is_space x" by simp
  from False obtain ys y where y: "strip s = ys @ [y]" by (cases "strip s" rule: rev_cases) auto
  with strip_last [OF False] have ny: "\<not> is_space y" by simp
  have "dropWhile is_space (strip s) = strip s" using x nx by simp
  then have "strip (strip s) = rev (dropWhile is_space (rev (strip s)))" by (simp add: strip_def)
  also have "\<dots> = strip s" using y ny by simp
  finally show ?thesis .
qed

section \<open>Facts about one pass of the loop\<close>

lemma step_in_tbl_other:
  assumes "in_tblproperties st" and "c \<noteq> CHR '')''"
  shows "step st (c # cs) = st\<lparr>current := current st @ [c]\<rparr>"
  using assms by (simp add: Let_def)

lemma step_in_tbl_close:
  assumes "in_tblproperties st"
  shows "step st (CHR '')'' # cs) =
           st\<lparr>in_tblproperties := False,
              statements := statements st @ [strip (current st @ '')'')], current := []\<rparr>"
proof -
  have "strip (current st @ '')'') \<noteq> []"
    by (simp add: strip_eq_Nil_iff is_space_def)
  with assms show ?thesis by (simp add: Let_def emit_def)
qed

lemma step_in_string_other:
  assumes "in_string st" and "\<not> in_tblproperties st" and "\<not> tbl_keyword (c # cs)"
    and "string_delimiter st \<noteq> Some c"
  shows "step st (c # cs) = st\<lparr>current := current st @ [c]\<rparr>"
  using assms by (auto simp: Let_def)

lemma step_in_string_close:
  assumes "in_string st" and "\<not> in_tblproperties st" and "\<not> tbl_keyword (c # cs)"
    and "string_delimiter st = Some c"
  shows "step st (c # cs) = st\<lparr>in_string := False, current := current st @ [c]\<rparr>"
  using assms by (auto simp: Let_def)

lemma step_open_quote:
  assumes "\<not> in_string st" and "\<not> in_tblproperties st"
    and "c \<in> set [CHR 0x27, CHR 0x22, CHR 0x60]"
  shows "step st (c # cs) =
           st\<lparr>in_string := True, string_delimiter := Some c, current := current st @ [c]\<rparr>"
proof -
  from assms(3) have "\<not> tbl_keyword (c # cs)" using tbl_keyword_hd_facts(4) by blast
  with assms show ?thesis by (simp add: Let_def)
qed

lemma step_semicolon:
  assumes "\<not> in_string st" and "\<not> in_tblproperties st"
  shows "step st (CHR '';'' # cs) =
           st\<lparr>statements := emit (current st) (statements st), current := []\<rparr>"
proof -
  have "\<not> tbl_keyword (CHR '';'' # cs)" using tbl_keyword_hd_facts(2) by blast
  with assms show ?thesis by (simp add: Let_def)
qed

lemma step_semicolon_in_string:
  assumes "in_string st"
  shows "statements (step st (CHR '';'' # cs)) = statements st"
    and "current (step st (CHR '';'' # cs)) = current st @ '';''"
    and "in_tblproperties (step st (CHR '';'' # cs)) = in_tblproperties st"
proof -
  have "\<not> tbl_keyword (CHR '';'' # cs)" using tbl_keyword_hd_facts(2) by blast
  with assms show "statements (step st (CHR '';'' # cs)) = statements st"
    and "current (step st (CHR '';'' # cs)) = current st @ '';''"
    and "in_tblproperties (step st (CHR '';'' # cs)) = in_tblproperties st"
    by (simp_all add: Let_def)
qed

section \<open>Facts about the loop\<close>

lemma scan_loop_append:
  "scan_loop st (a @ b) post = scan_loop (scan_loop st a (b @ post)) b post"
  by (induction a arbitrary: st) simp_all

lemma scan_loop_region:
  assumes "in_tblproperties st" and "CHR '')'' \<notin> set mid"
  shows "scan_loop st mid post = st\<lparr>current := current st @ mid\<rparr>"
  using assms
proof (induction mid arbitrary: st)
  case Nil
  then show ?case by simp
next
  case (Cons c mid)
  from Cons.prems have c: "c \<noteq> CHR '')''" and mid: "CHR '')'' \<notin> set mid" by auto
  have "step st (c # mid @ post) = st\<lparr>current := current st @ [c]\<rparr>"
    using Cons.prems(1) c by (rule step_in_tbl_other)
  moreover have "scan_loop (st\<lparr>current := current st @ [c]\<rparr>) mid post =
      st\<lparr>current := current st @ [c] @ mid\<rparr>"
    using Cons.IH [of "st\<lparr>current := current st @ [c]\<rparr>"] Cons.prems(1) mid by simp
  ultimately show ?case by (simp del: step.simps)
qed

lemma scan_loop_region_close:
  assumes "in_tblproperties st" and "CHR '')'' \<notin> set mid"
  shows "scan_loop st (mid @ '')'') post =
           st\<lparr>in_tblproperties := False,
              statements := statements st @ [strip (current st @ mid @ '')'')], current := []\<rparr>"
proof -
  have "scan_loop st (mid @ '')'') post =
          scan_loop (st\<lparr>current := current st @ mid\<rparr>) '')'' post"
    using assms by (simp add: scan_loop_append scan_loop_region)
  also have "\<dots> = step (st\<lparr>current := current st @ mid\<rparr>) (CHR '')'' # post)"
    by (simp del: step.simps)
  also have "\<dots> = st\<lparr>in_tblproperties := False,
      statements := statements st @ [strip (current st @ mid @ '')'')], current := []\<rparr>"
    using assms(1) by (simp add: step_in_tbl_close del: step.simps)
  finally show ?thesis .
qed

lemma step_keyword:
  assumes "tbl_keyword (c # cs)"
  shows "step st (c # cs) = st\<lparr>in_tblproperties := True, current := current st @ [c]\<rparr>"
  using assms tbl_keyword_hd_facts [OF assms] by (simp add: Let_def)

lemma step_keeps_string:
  assumes "in_string st" and "string_delimiter st = Some d" and "c \<noteq> d"
  shows "in_string (step st (c # cs)) \<and> string_delimiter (step st (c # cs)) = Some d"
  using assms by (auto simp: Let_def)

lemma scan_loop_keeps_string:
  assumes "in_string st" and "string_delimiter st = Some d" and "d \<notin> set a"
  shows "in_string (scan_loop st a post) \<and> string_delimiter (scan_loop st a post) = Some d"
  using assms
proof (induction a arbitrary: st)
  case Nil
  then show ?case by simp
next
  case (Cons c a)
  from Cons.prems have "c \<noteq> d" and "d \<notin> set a" by auto
  with Cons.prems step_keeps_string [of st d c "a @ post"]
  have "in_string (step st (c # a @ post))"
    and "string_delimiter (step st (c # a @ post)) = Some d" by blast+
  from Cons.IH [OF this \<open>d \<notin> set a\<close>] show ?case by (simp del: step.simps)
qed

lemma scan_loop_quoted:
  assumes "in_string st" and "\<not> in_tblproperties st" and "string_delimiter st = Some d"
    and "d \<notin> set body" and "no_keyword body post"
  shows "scan_loop st body post = st\<lparr>current := current st @ body\<rparr>"
  using assms
proof (induction body arbitrary: st)
  case Nil
  then show ?case by simp
next
  case (Cons c body)
  from Cons.prems have c: "c \<noteq> d" and body: "d \<notin> set body"
    and nk: "\<not> tbl_keyword (c # body @ post)" and nk': "no_keyword body post" by auto
  have "step st (c # body @ post) = st\<lparr>current := current st @ [c]\<rparr>"
    using Cons.prems(1,2) nk c Cons.prems(3) by (intro step_in_string_other) auto
  moreover have "scan_loop (st\<lparr>current := current st @ [c]\<rparr>) body post =
      st\<lparr>current := current st @ [c] @ body\<rparr>"
    using Cons.IH [of "st\<lparr>current := current st @ [c]\<rparr>"] Cons.prems(1,2,3) body nk' by simp
  ultimately show ?case by (simp del: step.simps)
qed

lemma scan_loop_literal:
  assumes "\<not> in_string st" and "\<not> in_tblproperties st"
    and "d \<in> set [CHR 0x27, CHR 0x22, CHR 0x60]"
    and "d \<notin> set body" and "no_keyword body (d # rest)"
  shows "scan_loop st (d # body @ [d]) rest =
           st\<lparr>string_delimiter := Some d, current := current st @ d # body @ [d]\<rparr>"
proof -
  let ?st1 = "st\<lparr>in_string := True, string_delimiter := Some d, current := current st @ [d]\<rparr>"
  have 1: "step st (d # body @ [d] @ rest) = ?st1"
    using assms(1,2,3) by (rule step_open_quote)
  have 2: "scan_loop ?st1 body ([d] @ rest) = ?st1\<lparr>current := current ?st1 @ body\<rparr>"
    using assms by (intro scan_loop_quoted) auto
  have "\<not> tbl_keyword (d # rest)" using assms(3) tbl_keyword_hd_facts(4) by blast
  then have 3: "step (?st1\<lparr>current := current ?st1 @ body\<rparr>) (d # rest) =
      ?st1\<lparr>current := current ?st1 @ body\<rparr>\<lparr>in_string := False,
         current := current (?st1\<lparr>current := current ?st1 @ body\<rparr>) @ [d]\<rparr>"
    using assms(2) by (intro step_in_string_close) auto
  have "scan_loop st (d # body @ [d]) rest = scan_loop ?st1 (body @ [d]) rest"
    using 1 by (simp del: step.simps)
  also have "\<dots> = scan_loop (?st1\<lparr>current := current ?st1 @ body\<rparr>) [d] rest"
    using 2 by (simp add: scan_loop_append del: step.simps)
  also have "\<dots> = step (?st1\<lparr>current := current ?st1 @ body\<rparr>) (d # rest)"
    by (simp del: step.simps)
  also have "\<dots> = st\<lparr>string_delimiter := Some d, current := current st @ d # body @ [d]\<rparr>"
    using assms(1) by (subst 3) simp
  finally show ?thesis .
qed

section \<open>Quoted regions\<close>

text \<open>
  Claim C1. A semicolon inside a quoted region, while no TBLPROPERTIES region is active, is
  never a split point. When the loop meets an opening delimiter \<open>d\<close> outside a literal and
  outside a region, and the text up to the next \<open>d\<close> holds no keyword, the whole literal
  \<open>d body d\<close>, whatever semicolons \<open>body\<close> holds, goes into the buffer and the list of
  statements stays as it was. The example of the specification gives one statement, for the
  scan alone and for the whole method.
\<close>

theorem quoted_semicolon_never_splits:
  assumes "\<not> in_string st" and "\<not> in_tblproperties st"
    and "d \<in> set [CHR 0x27, CHR 0x22, CHR 0x60]"
    and "d \<notin> set body" and "no_keyword body (d # rest)"
  shows "scan_loop st (d # body @ [d]) rest =
           st\<lparr>string_delimiter := Some d, current := current st @ d # body @ [d]\<rparr>
       \<and> statements (scan_loop st (d # body @ [d]) rest) = statements st
       \<and> split_statements ''INSERT INTO t VALUES ('a;b');'' = [''INSERT INTO t VALUES ('a;b');'']
       \<and> split_sql_statements ''INSERT INTO t VALUES ('a;b');'' =
           [''INSERT INTO t VALUES ('a;b');'']"
proof -
  have run: "scan_loop st (d # body @ [d]) rest =
      st\<lparr>string_delimiter := Some d, current := current st @ d # body @ [d]\<rparr>"
    using assms by (rule scan_loop_literal)
  have ex1: "split_statements ''INSERT INTO t VALUES ('a;b');'' =
      [''INSERT INTO t VALUES ('a;b');'']"
    by code_simp
  have ex2: "split_sql_statements ''INSERT INTO t VALUES ('a;b');'' =
      [''INSERT INTO t VALUES ('a;b');'']"
    by code_simp
  from run ex1 ex2 show ?thesis by simp
qed

theorem quoted_semicolon_never_splits_witness:
  "scan_loop init_state (CHR 0x27 # ''a;b'' @ [CHR 0x27]) '');'' =
     init_state\<lparr>string_delimiter := Some (CHR 0x27),
                current := current init_state @ CHR 0x27 # ''a;b'' @ [CHR 0x27]\<rparr>
   \<and> statements (scan_loop init_state (CHR 0x27 # ''a;b'' @ [CHR 0x27]) '');'') = []"
proof -
  have 1: "\<not> in_string init_state" and 2: "\<not> in_tblproperties init_state"
    by (simp_all add: init_state_def)
  have 3: "CHR 0x27 \<in> set [CHR 0x27, CHR 0x22, CHR 0x60]" by simp
  have 4: "CHR 0x27 \<notin> set ''a;b''" by simp
  have 5: "no_keyword ''a;b'' (CHR 0x27 # '');'')" by code_simp
  from quoted_semicolon_never_splits [OF 1 2 3 4 5]
  show ?thesis by (simp add: init_state_def)
qed

section \<open>TBLPROPERTIES regions\<close>

text \<open>
  Claim C2. A TBLPROPERTIES clause whose parentheses hold semicolons or quote characters is
  never split inside. Where the loop finds the keyword, the text from there up to the first
  closing parenthesis, semicolons and quote characters included, joins the buffer, and the
  buffer, stripped, is emitted as one statement at that parenthesis. The example of the
  specification gives one statement, for the scan alone and for the whole method.
\<close>

theorem tblproperties_clause_is_one_statement:
  assumes "tbl_keyword (c # body @ CHR '')'' # rest)" and "CHR '')'' \<notin> set body"
  shows "scan_loop st (c # body @ '')'') rest =
           st\<lparr>in_tblproperties := False,
              statements := statements st @ [strip (current st @ c # body @ '')'')],
              current := []\<rparr>
       \<and> split_statements ''CREATE TABLE t (id INT) TBLPROPERTIES ('delta.a' = 'x;y');'' =
           [''CREATE TABLE t (id INT) TBLPROPERTIES ('delta.a' = 'x;y');'']
       \<and> split_sql_statements ''CREATE TABLE t (id INT) TBLPROPERTIES ('delta.a' = 'x;y');'' =
           [''CREATE TABLE t (id INT) TBLPROPERTIES ('delta.a' = 'x;y');'']"
proof -
  let ?st1 = "st\<lparr>in_tblproperties := True, current := current st @ [c]\<rparr>"
  have "step st (c # body @ '')'' @ rest) = ?st1"
    using assms(1) by (simp add: step_keyword del: step.simps)
  then have "scan_loop st (c # body @ '')'') rest = scan_loop ?st1 (body @ '')'') rest"
    by (simp del: step.simps)
  also have "\<dots> = ?st1\<lparr>in_tblproperties := False,
      statements := statements ?st1 @ [strip (current ?st1 @ body @ '')'')], current := []\<rparr>"
    using assms(2) by (intro scan_loop_region_close) auto
  finally have run: "scan_loop st (c # body @ '')'') rest =
      st\<lparr>in_tblproperties := False,
         statements := statements st @ [strip (current st @ c # body @ '')'')],
         current := []\<rparr>"
    by simp
  have ex1: "split_statements ''CREATE TABLE t (id INT) TBLPROPERTIES ('delta.a' = 'x;y');'' =
      [''CREATE TABLE t (id INT) TBLPROPERTIES ('delta.a' = 'x;y');'']"
    by code_simp
  have ex2: "split_sql_statements ''CREATE TABLE t (id INT) TBLPROPERTIES ('delta.a' = 'x;y');'' =
      [''CREATE TABLE t (id INT) TBLPROPERTIES ('delta.a' = 'x;y');'']"
    by code_simp
  from run ex1 ex2 show ?thesis by simp
qed

theorem tblproperties_clause_is_one_statement_witness:
  "scan_loop (init_state\<lparr>current := ''CREATE TABLE t (id INT) ''\<rparr>)
      (CHR ''T'' # ''BLPROPERTIES ('delta.a' = 'x;y' '' @ '')'') '';'' =
   init_state\<lparr>current := ''CREATE TABLE t (id INT) ''\<rparr>
     \<lparr>in_tblproperties := False,
      statements := statements (init_state\<lparr>current := ''CREATE TABLE t (id INT) ''\<rparr>) @
        [''CREATE TABLE t (id INT) TBLPROPERTIES ('delta.a' = 'x;y' )''],
      current := []\<rparr>"
proof -
  have 1: "tbl_keyword (CHR ''T'' # ''BLPROPERTIES ('delta.a' = 'x;y' '' @ CHR '')'' # '';'')"
    by code_simp
  have 2: "CHR '')'' \<notin> set ''BLPROPERTIES ('delta.a' = 'x;y' ''" by simp
  have 3: "strip (current (init_state\<lparr>current := ''CREATE TABLE t (id INT) ''\<rparr>) @
      CHR ''T'' # ''BLPROPERTIES ('delta.a' = 'x;y' '' @ '')'')
    = ''CREATE TABLE t (id INT) TBLPROPERTIES ('delta.a' = 'x;y' )''"
    by code_simp
  have "scan_loop (init_state\<lparr>current := ''CREATE TABLE t (id INT) ''\<rparr>)
      (CHR ''T'' # ''BLPROPERTIES ('delta.a' = 'x;y' '' @ '')'') '';'' =
    init_state\<lparr>current := ''CREATE TABLE t (id INT) ''\<rparr>
     \<lparr>in_tblproperties := False,
      statements := statements (init_state\<lparr>current := ''CREATE TABLE t (id INT) ''\<rparr>) @
        [strip (current (init_state\<lparr>current := ''CREATE TABLE t (id INT) ''\<rparr>) @
      CHR ''T'' # ''BLPROPERTIES ('delta.a' = 'x;y' '' @ '')'')],
      current := []\<rparr>"
    using tblproperties_clause_is_one_statement [OF 1 2] by (rule conjunct1)
  then show ?thesis by (simp only: 3)
qed

section \<open>The first closing parenthesis\<close>

text \<open>
  Claim C3. Once the loop is inside a TBLPROPERTIES region (the flag is set where the 13
  characters at the index spell the keyword), the first closing parenthesis it meets ends
  the region and the statement, whatever the text \<open>mid\<close> before it holds: opening
  parentheses are not counted. In the example the clause is cut at the parenthesis that
  closes the inner call.
\<close>

theorem first_closing_parenthesis_ends_region:
  assumes "in_tblproperties st" and "CHR '')'' \<notin> set mid"
  shows "scan_loop st (mid @ '')'') post =
           st\<lparr>in_tblproperties := False,
              statements := statements st @ [strip (current st @ mid @ '')'')],
              current := []\<rparr>
       \<and> split_statements ''TBLPROPERTIES (a = f(b), c = 'd;e');'' =
           [''TBLPROPERTIES (a = f(b);'', '', c = 'd;e');'']"
proof -
  have ex: "split_statements ''TBLPROPERTIES (a = f(b), c = 'd;e');'' =
      [''TBLPROPERTIES (a = f(b);'', '', c = 'd;e');'']"
    by code_simp
  from scan_loop_region_close [OF assms] ex show ?thesis by blast
qed

theorem first_closing_parenthesis_ends_region_witness:
  "scan_loop (init_state\<lparr>in_tblproperties := True, current := ''TBLPROPERTIES''\<rparr>)
     ('' (a = f(b'' @ '')'') '', c);'' =
   init_state\<lparr>in_tblproperties := True, current := ''TBLPROPERTIES''\<rparr>
     \<lparr>in_tblproperties := False,
      statements :=
        statements (init_state\<lparr>in_tblproperties := True, current := ''TBLPROPERTIES''\<rparr>) @
        [''TBLPROPERTIES (a = f(b)''],
      current := []\<rparr>"
proof -
  have 1: "in_tblproperties (init_state\<lparr>in_tblproperties := True, current := ''TBLPROPERTIES''\<rparr>)"
    by simp
  have 2: "CHR '')'' \<notin> set '' (a = f(b''" by simp
  have 3: "strip (current (init_state\<lparr>in_tblproperties := True, current := ''TBLPROPERTIES''\<rparr>) @
      '' (a = f(b'' @ '')'') = ''TBLPROPERTIES (a = f(b)''"
    by code_simp
  have "scan_loop (init_state\<lparr>in_tblproperties := True, current := ''TBLPROPERTIES''\<rparr>)
     ('' (a = f(b'' @ '')'') '', c);'' =
   init_state\<lparr>in_tblproperties := True, current := ''TBLPROPERTIES''\<rparr>
     \<lparr>in_tblproperties := False,
      statements :=
        statements (init_state\<lparr>in_tblproperties := True, current := ''TBLPROPERTIES''\<rparr>) @
        [strip (current (init_state\<lparr>in_tblproperties := True, current := ''TBLPROPERTIES''\<rparr>) @
      '' (a = f(b'' @ '')'')],
      current := []\<rparr>"
    using first_closing_parenthesis_ends_region [OF 1 2] by (rule conjunct1)
  then show ?thesis by (simp only: 3)
qed

text \<open>
  Claim C10. Closing a region never clears the quote flag. When the keyword is found while
  a literal with delimiter \<open>d\<close> is open, the first closing parenthesis emits the buffer and
  leaves the loop inside the literal; as long as \<open>d\<close> does not come (the text \<open>a\<close>), the
  loop stays inside the literal with the same delimiter, and a semicolon met there joins the
  buffer and emits nothing.
\<close>

theorem region_close_keeps_quote_state:
  assumes "in_string st" and "string_delimiter st = Some d"
    and "tbl_keyword (c # mid @ CHR '')'' # a @ CHR '';'' # rest)"
    and "CHR '')'' \<notin> set mid" and "d \<notin> set a"
  shows "scan_loop st (c # mid @ '')'') (a @ CHR '';'' # rest) =
           st\<lparr>in_tblproperties := False,
              statements := statements st @ [strip (current st @ c # mid @ '')'')],
              current := []\<rparr>
       \<and> in_string (scan_loop st (c # mid @ '')'' @ a) (CHR '';'' # rest))
       \<and> string_delimiter (scan_loop st (c # mid @ '')'' @ a) (CHR '';'' # rest)) = Some d
       \<and> statements (scan_loop st (c # mid @ '')'' @ a @ '';'') rest) =
           statements (scan_loop st (c # mid @ '')'' @ a) (CHR '';'' # rest))
       \<and> current (scan_loop st (c # mid @ '')'' @ a @ '';'') rest) =
           current (scan_loop st (c # mid @ '')'' @ a) (CHR '';'' # rest)) @ '';''"
proof -
  let ?st1 = "st\<lparr>in_tblproperties := True, current := current st @ [c]\<rparr>"
  let ?st2 = "st\<lparr>in_tblproperties := False,
      statements := statements st @ [strip (current st @ c # mid @ '')'')], current := []\<rparr>"
  let ?st3 = "scan_loop ?st2 a (CHR '';'' # rest)"
  have "step st (c # mid @ '')'' @ a @ CHR '';'' # rest) = ?st1"
    using assms(3) by (simp add: step_keyword del: step.simps)
  then have "scan_loop st (c # mid @ '')'') (a @ CHR '';'' # rest) =
      scan_loop ?st1 (mid @ '')'') (a @ CHR '';'' # rest)"
    by (simp del: step.simps)
  also have "\<dots> = ?st1\<lparr>in_tblproperties := False,
      statements := statements ?st1 @ [strip (current ?st1 @ mid @ '')'')], current := []\<rparr>"
    using assms(4) by (intro scan_loop_region_close) auto
  finally have close: "scan_loop st (c # mid @ '')'') (a @ CHR '';'' # rest) = ?st2"
    by simp
  have split1: "scan_loop st (c # mid @ '')'' @ a) (CHR '';'' # rest) = ?st3"
    using scan_loop_append [of st "c # mid @ '')''" a "CHR '';'' # rest"] close
    by (simp del: step.simps scan_loop.simps)
  have keep: "in_string ?st3 \<and> string_delimiter ?st3 = Some d"
    using assms(1,2,5) by (intro scan_loop_keeps_string) auto
  have "scan_loop st ((c # mid @ '')'' @ a) @ '';'') rest =
      scan_loop (scan_loop st (c # mid @ '')'' @ a) ('';'' @ rest)) '';'' rest"
    by (rule scan_loop_append)
  then have split2: "scan_loop st (c # mid @ '')'' @ a @ '';'') rest = step ?st3 (CHR '';'' # rest)"
    using split1 by (simp del: step.simps)
  from keep have "statements (step ?st3 (CHR '';'' # rest)) = statements ?st3"
    and "current (step ?st3 (CHR '';'' # rest)) = current ?st3 @ '';''"
    by (simp_all add: step_semicolon_in_string del: step.simps)
  with close keep split1 split2 show ?thesis by (simp del: step.simps scan_loop.simps)
qed

theorem region_close_keeps_quote_state_witness:
  "scan_loop (init_state\<lparr>in_string := True, string_delimiter := Some (CHR 0x27)\<rparr>) (CHR ''T'' # ''BLPROPERTIES('' @ '')'') (''x'' @ CHR '';'' # [CHR 0x27]) =
           (init_state\<lparr>in_string := True, string_delimiter := Some (CHR 0x27)\<rparr>)\<lparr>in_tblproperties := False,
              statements := statements (init_state\<lparr>in_string := True, string_delimiter := Some (CHR 0x27)\<rparr>) @ [strip (current (init_state\<lparr>in_string := True, string_delimiter := Some (CHR 0x27)\<rparr>) @ CHR ''T'' # ''BLPROPERTIES('' @ '')'')],
              current := []\<rparr>
       \<and> in_string (scan_loop (init_state\<lparr>in_string := True, string_delimiter := Some (CHR 0x27)\<rparr>) (CHR ''T'' # ''BLPROPERTIES('' @ '')'' @ ''x'') (CHR '';'' # [CHR 0x27]))
       \<and> string_delimiter (scan_loop (init_state\<lparr>in_string := True, string_delimiter := Some (CHR 0x27)\<rparr>) (CHR ''T'' # ''BLPROPERTIES('' @ '')'' @ ''x'') (CHR '';'' # [CHR 0x27])) = Some (CHR 0x27)
       \<and> statements (scan_loop (init_state\<lparr>in_string := True, string_delimiter := Some (CHR 0x27)\<rparr>) (CHR ''T'' # ''BLPROPERTIES('' @ '')'' @ ''x'' @ '';'') [CHR 0x27]) =
           statements (scan_loop (init_state\<lparr>in_string := True, string_delimiter := Some (CHR 0x27)\<rparr>) (CHR ''T'' # ''BLPROPERTIES('' @ '')'' @ ''x'') (CHR '';'' # [CHR 0x27]))
       \<and> current (scan_loop (init_state\<lparr>in_string := True, string_delimiter := Some (CHR 0x27)\<rparr>) (CHR ''T'' # ''BLPROPERTIES('' @ '')'' @ ''x'' @ '';'') [CHR 0x27]) =
           current (scan_loop (init_state\<lparr>in_string := True, string_delimiter := Some (CHR 0x27)\<rparr>) (CHR ''T'' # ''BLPROPERTIES('' @ '')'' @ ''x'') (CHR '';'' # [CHR 0x27])) @ '';''"
proof -
  have 1: "in_string (init_state\<lparr>in_string := True, string_delimiter := Some (CHR 0x27)\<rparr>)" by simp
  have 2: "string_delimiter (init_state\<lparr>in_string := True, string_delimiter := Some (CHR 0x27)\<rparr>) = Some (CHR 0x27)" by simp
  have 3: "tbl_keyword (CHR ''T'' # ''BLPROPERTIES('' @ CHR '')'' # ''x'' @ CHR '';'' # [CHR 0x27])"
    by code_simp
  have 4: "CHR '')'' \<notin> set ''BLPROPERTIES(''" by simp
  have 5: "CHR 0x27 \<notin> set ''x''" by simp
  show ?thesis by (rule region_close_keeps_quote_state [OF 1 2 3 4 5])
qed

section \<open>The eight cases of one pass\<close>

lemma step_default_other:
  assumes "\<not> in_string st" and "\<not> in_tblproperties st" and "\<not> tbl_keyword (c # cs)"
    and "c \<notin> set [CHR 0x27, CHR 0x22, CHR 0x60]" and "c \<noteq> CHR '';''"
  shows "step st (c # cs) = st\<lparr>current := current st @ [c]\<rparr>"
  using assms by (auto simp: Let_def)

lemma step_cases [consumes 0, case_names keyword region_close region quote_close quoted
    quote_open semicolon plain]:
  obtains
    (keyword) "tbl_keyword (c # cs)"
      "step st (c # cs) = st\<lparr>in_tblproperties := True, current := current st @ [c]\<rparr>"
  | (region_close) "\<not> tbl_keyword (c # cs)" "in_tblproperties st" "c = CHR '')''"
      "step st (c # cs) = st\<lparr>in_tblproperties := False,
         statements := statements st @ [strip (current st @ '')'')], current := []\<rparr>"
  | (region) "\<not> tbl_keyword (c # cs)" "in_tblproperties st" "c \<noteq> CHR '')''"
      "step st (c # cs) = st\<lparr>current := current st @ [c]\<rparr>"
  | (quote_close) "\<not> tbl_keyword (c # cs)" "\<not> in_tblproperties st" "in_string st"
      "string_delimiter st = Some c"
      "step st (c # cs) = st\<lparr>in_string := False, current := current st @ [c]\<rparr>"
  | (quoted) "\<not> tbl_keyword (c # cs)" "\<not> in_tblproperties st" "in_string st"
      "string_delimiter st \<noteq> Some c"
      "step st (c # cs) = st\<lparr>current := current st @ [c]\<rparr>"
  | (quote_open) "\<not> tbl_keyword (c # cs)" "\<not> in_tblproperties st" "\<not> in_string st"
      "c \<in> set [CHR 0x27, CHR 0x22, CHR 0x60]"
      "step st (c # cs) =
         st\<lparr>in_string := True, string_delimiter := Some c, current := current st @ [c]\<rparr>"
  | (semicolon) "\<not> tbl_keyword (c # cs)" "\<not> in_tblproperties st" "\<not> in_string st"
      "c = CHR '';''"
      "step st (c # cs) = st\<lparr>statements := emit (current st) (statements st), current := []\<rparr>"
  | (plain) "\<not> tbl_keyword (c # cs)" "\<not> in_tblproperties st" "\<not> in_string st"
      "c \<notin> set [CHR 0x27, CHR 0x22, CHR 0x60]" "c \<noteq> CHR '';''"
      "step st (c # cs) = st\<lparr>current := current st @ [c]\<rparr>"
proof (cases "tbl_keyword (c # cs)")
  case True
  then show ?thesis using keyword step_keyword by blast
next
  case nk: False
  show ?thesis
  proof (cases "in_tblproperties st")
    case True
    then show ?thesis
      using nk region_close region step_in_tbl_close step_in_tbl_other by (cases "c = CHR '')''") blast+
  next
    case nt: False
    show ?thesis
    proof (cases "in_string st")
      case True
      then show ?thesis
        using nk nt quote_close quoted step_in_string_close step_in_string_other
        by (cases "string_delimiter st = Some c") blast+
    next
      case ns: False
      show ?thesis
      proof (cases "c \<in> set [CHR 0x27, CHR 0x22, CHR 0x60]")
        case True
        then show ?thesis using nk nt ns quote_open step_open_quote by blast
      next
        case nq: False
        show ?thesis
        proof (cases "c = CHR '';''")
          case True
          then show ?thesis using nk nt ns semicolon step_semicolon by blast
        next
          case False
          then show ?thesis using nk nt ns nq plain step_default_other by blast
        qed
      qed
    qed
  qed
qed

section \<open>What every reachable state satisfies\<close>

lemma endswith_semicolon_iff: "endswith s '';'' \<longleftrightarrow> s \<noteq> [] \<and> last s = CHR '';''"
  by (cases s rule: rev_cases) (auto simp: endswith_def startswith_def)

lemma endswith_two_semicolons_iff:
  "endswith (s @ '';'') '';;'' \<longleftrightarrow> endswith s '';''"
  by (cases s rule: rev_cases) (auto simp: endswith_def startswith_def)

lemma strip_snoc_nonspace_props:
  assumes "\<not> is_space c"
  shows "strip (s @ [c]) \<noteq> []" and "last (strip (s @ [c])) = c"
  using assms by (simp_all add: strip_snoc_nonspace)

lemma not_endswith_strip_snoc:
  assumes "\<not> endswith (strip s) '';''" and "c \<noteq> CHR '';''"
  shows "\<not> endswith (strip (s @ [c])) '';''"
proof (cases "is_space c")
  case True
  then show ?thesis using assms(1) by (simp add: strip_snoc_space)
next
  case False
  then show ?thesis using assms(2) by (simp add: endswith_semicolon_iff strip_snoc_nonspace)
qed

lemma state_ok_init: "state_ok init_state"
  by (simp add: state_ok_def init_state_def endswith_semicolon_iff)

lemma state_ok_emit:
  assumes "\<forall>s \<in> set stmts. s \<noteq> [] \<and> strip s = s \<and> \<not> endswith s '';''"
    and "\<not> endswith (strip cur) '';''"
  shows "\<forall>s \<in> set (emit cur stmts). s \<noteq> [] \<and> strip s = s \<and> \<not> endswith s '';''"
  using assms by (auto simp: emit_def Let_def strip_idem)

lemma state_ok_step:
  assumes "state_ok st"
  shows "state_ok (step st (c # cs))"
proof (cases rule: step_cases [of c cs st])
  case keyword
  then show ?thesis using assms by (simp add: state_ok_def)
next
  case region_close
  have "\<not> is_space (CHR '')'')" by (simp add: is_space_def)
  then have "strip (current st @ '')'') \<noteq> []"
    and "\<not> endswith (strip (current st @ '')'')) '';''"
    by (simp_all add: strip_snoc_nonspace endswith_semicolon_iff)
  moreover have "\<not> endswith [] '';''" by (simp add: endswith_semicolon_iff)
  ultimately show ?thesis using assms region_close
    by (auto simp: state_ok_def strip_idem)
next
  case region
  then show ?thesis using assms by (simp add: state_ok_def)
next
  case quote_close
  with assms have "c \<in> set [CHR 0x27, CHR 0x22, CHR 0x60]" by (auto simp: state_ok_def)
  then have "\<not> is_space c" and "c \<noteq> CHR '';''" by (auto simp: is_space_def)
  then have "\<not> endswith (strip (current st @ [c])) '';''"
    by (simp add: endswith_semicolon_iff strip_snoc_nonspace)
  then show ?thesis using assms quote_close by (simp add: state_ok_def)
next
  case quoted
  then show ?thesis using assms by (simp add: state_ok_def)
next
  case quote_open
  then show ?thesis using assms by (simp add: state_ok_def)
next
  case semicolon
  from assms semicolon have "\<not> endswith (strip (current st)) '';''"
    by (simp add: state_ok_def)
  with assms have "\<forall>s \<in> set (emit (current st) (statements st)).
      s \<noteq> [] \<and> strip s = s \<and> \<not> endswith s '';''"
    by (intro state_ok_emit) (simp_all add: state_ok_def)
  moreover have "\<not> endswith [] '';''" by (simp add: endswith_semicolon_iff)
  ultimately show ?thesis using assms semicolon
    by (simp add: state_ok_def)
next
  case plain
  from assms plain have "\<not> endswith (strip (current st)) '';''"
    by (simp add: state_ok_def)
  then have "\<not> endswith (strip (current st @ [c])) '';''"
    using plain(5) by (rule not_endswith_strip_snoc)
  then show ?thesis using assms plain by (simp add: state_ok_def)
qed

lemma state_ok_scan_loop:
  assumes "state_ok st"
  shows "state_ok (scan_loop st body post)"
  using assms
proof (induction body arbitrary: st)
  case Nil
  then show ?case by simp
next
  case (Cons c body)
  from Cons.prems have "state_ok (step st (c # body @ post))" by (rule state_ok_step)
  then have "state_ok (scan_loop (step st (c # body @ post)) body post)" by (rule Cons.IH)
  then show ?case by (simp del: step.simps)
qed

lemma terminate_open: "\<not> endswith s '';'' \<Longrightarrow> terminate s = s @ '';''"
  by (simp add: terminate_def)

lemma finish_state_ok:
  assumes "state_ok st"
  shows "finish st =
           map (\<lambda>s. s @ '';'') (statements st) @
           (if strip (current st) \<noteq> [] then [terminate (strip (current st))] else [])"
proof -
  from assms have ok: "\<forall>s \<in> set (statements st). s \<noteq> [] \<and> strip s = s \<and> \<not> endswith s '';''"
    by (simp add: state_ok_def)
  then have keep: "filter (\<lambda>s. strip s \<noteq> []) (statements st) = statements st"
    by (auto intro: filter_True)
  from ok have tm: "map terminate (statements st) = map (\<lambda>s. s @ '';'') (statements st)"
    by (auto simp: terminate_open)
  show ?thesis using keep tm by (simp add: finish_def Let_def strip_idem)
qed

section \<open>The shape of the result\<close>

lemma split_statements_shape:
  obtains stmts tr where
    "split_statements t = map (\<lambda>s. s @ '';'') stmts @ tr"
    "\<forall>s \<in> set stmts. s \<noteq> [] \<and> strip s = s \<and> \<not> endswith s '';''"
    "tr = [] \<or> (\<exists>u. tr = [terminate u] \<and> u \<noteq> [] \<and> strip u = u)"
proof -
  let ?st = "scan_loop init_state t []"
  have ok: "state_ok ?st" using state_ok_init by (rule state_ok_scan_loop)
  let ?tr = "if strip (current ?st) \<noteq> [] then [terminate (strip (current ?st))] else []"
  have 1: "split_statements t = map (\<lambda>s. s @ '';'') (statements ?st) @ ?tr"
    using finish_state_ok [OF ok] by (simp add: split_statements_def)
  have 2: "\<forall>s \<in> set (statements ?st). s \<noteq> [] \<and> strip s = s \<and> \<not> endswith s '';''"
    using ok by (simp add: state_ok_def)
  have 3: "?tr = [] \<or> (\<exists>u. ?tr = [terminate u] \<and> u \<noteq> [] \<and> strip u = u)"
    by (auto simp: strip_idem)
  from that [OF 1 2 3] show thesis .
qed

lemma stripped_ends:
  assumes "s \<noteq> []" and "strip s = s"
  shows "\<not> is_space (hd s)" and "\<not> is_space (last s)"
  using assms strip_hd [of s] strip_last [of s] by simp_all

lemma terminated_statement_props:
  assumes "s \<noteq> []" and "strip s = s"
  shows "terminate s \<noteq> [] \<and> \<not> is_space (hd (terminate s))
    \<and> \<not> is_space (last (terminate s)) \<and> endswith (terminate s) '';''"
proof -
  have semi: "\<not> is_space (CHR '';'')" by (simp add: is_space_def)
  have "terminate s \<noteq> []" using assms(1) by (simp add: terminate_def)
  moreover have "\<not> is_space (hd (terminate s))"
    using assms stripped_ends(1) by (simp add: terminate_def)
  moreover have "\<not> is_space (last (terminate s))"
    using assms stripped_ends(2) semi by (simp add: terminate_def)
  moreover have "endswith (terminate s) '';''"
    by (simp add: terminate_def endswith_semicolon_iff)
  ultimately show ?thesis by (intro conjI)
qed

lemma split_statements_props:
  "(\<forall>s \<in> set (split_statements t).
      s \<noteq> [] \<and> \<not> is_space (hd s) \<and> \<not> is_space (last s) \<and> endswith s '';'')
   \<and> (\<forall>s \<in> set (butlast (split_statements t)). \<not> endswith s '';;'')"
proof -
  obtain stmts tr where
    shape: "split_statements t = map (\<lambda>s. s @ '';'') stmts @ tr"
    and stmts: "\<forall>s \<in> set stmts. s \<noteq> [] \<and> strip s = s \<and> \<not> endswith s '';''"
    and tr: "tr = [] \<or> (\<exists>u. tr = [terminate u] \<and> u \<noteq> [] \<and> strip u = u)"
    by (rule split_statements_shape)
  have a: "terminate s = s @ '';''" if "s \<in> set stmts" for s
    using that stmts by (simp add: terminate_open)
  have p1: "x \<noteq> [] \<and> \<not> is_space (hd x) \<and> \<not> is_space (last x) \<and> endswith x '';''"
    if "x \<in> set (map (\<lambda>s. s @ '';'') stmts)" for x
  proof -
    from that obtain s where s: "s \<in> set stmts" and x: "x = s @ '';''" by auto
    with a have x': "x = terminate s" by simp
    from s stmts have "s \<noteq> []" and "strip s = s" by auto
    then show ?thesis unfolding x' by (rule terminated_statement_props)
  qed
  have p2: "x \<noteq> [] \<and> \<not> is_space (hd x) \<and> \<not> is_space (last x) \<and> endswith x '';''"
    if "x \<in> set tr" for x
  proof -
    from that tr obtain u where x': "x = terminate u" and "u \<noteq> []" and "strip u = u"
      by (cases "tr = []") auto
    then show ?thesis unfolding x' by (intro terminated_statement_props)
  qed
  have q: "\<not> endswith x '';;''" if "x \<in> set (map (\<lambda>s. s @ '';'') stmts)" for x
  proof -
    from that obtain s where s: "s \<in> set stmts" and x: "x = s @ '';''" by auto
    with stmts show ?thesis by (simp add: endswith_two_semicolons_iff)
  qed
  have "set (butlast (split_statements t)) \<subseteq> set (map (\<lambda>s. s @ '';'') stmts)"
  proof (cases "tr = []")
    case True
    then show ?thesis using shape by (auto dest: in_set_butlastD)
  next
    case False
    with tr obtain u where "tr = [terminate u]" by auto
    then show ?thesis using shape by (simp add: butlast_append)
  qed
  with q have "\<forall>s \<in> set (butlast (split_statements t)). \<not> endswith s '';;''" by blast
  moreover have "\<forall>s \<in> set (split_statements t).
      s \<noteq> [] \<and> \<not> is_space (hd s) \<and> \<not> is_space (last s) \<and> endswith s '';''"
  proof
    fix s
    assume "s \<in> set (split_statements t)"
    with shape have "s \<in> set (map (\<lambda>s. s @ '';'') stmts) \<or> s \<in> set tr"
      by (simp only: set_append Un_iff)
    with p1 p2 show "s \<noteq> [] \<and> \<not> is_space (hd s) \<and> \<not> is_space (last s) \<and> endswith s '';''"
      by blast
  qed
  ultimately show ?thesis by blast
qed

lemma endswith_two_imp_one: "endswith s '';;'' \<Longrightarrow> endswith s '';''"
  by (cases s rule: rev_cases) (auto simp: endswith_def startswith_def)

lemma endswith_terminate_two: "endswith (terminate s) '';;'' \<longleftrightarrow> endswith s '';;''"
proof (cases "endswith s '';''")
  case True
  then show ?thesis by (simp add: terminate_def)
next
  case False
  then have "\<not> endswith s '';;''" using endswith_two_imp_one by blast
  with False show ?thesis by (simp add: terminate_def endswith_two_semicolons_iff)
qed

lemma split_statements_last:
  "((\<forall>s \<in> set (split_statements t). \<not> endswith s '';;'') \<longleftrightarrow>
      \<not> endswith (strip (current (scan_loop init_state t []))) '';;'')
   \<and> (\<not> in_string (scan_loop init_state t []) \<and> \<not> in_tblproperties (scan_loop init_state t [])
        \<longrightarrow> (\<forall>s \<in> set (split_statements t). \<not> endswith s '';;''))"
proof -
  let ?F = "scan_loop init_state t []"
  let ?e = "strip (current ?F)"
  have ok: "state_ok ?F" using state_ok_init by (rule state_ok_scan_loop)
  have shape: "split_statements t = map (\<lambda>s. s @ '';'') (statements ?F) @
      (if ?e \<noteq> [] then [terminate ?e] else [])"
    using finish_state_ok [OF ok] by (simp add: split_statements_def)
  have stmts: "\<not> endswith x '';;''" if "x \<in> set (map (\<lambda>s. s @ '';'') (statements ?F))" for x
  proof -
    from that obtain s where "s \<in> set (statements ?F)" and "x = s @ '';''" by auto
    with ok show ?thesis by (simp add: state_ok_def endswith_two_semicolons_iff)
  qed
  have empty: "\<not> endswith ([]::string) '';;''" by (simp add: endswith_def startswith_def)
  have a: "(\<forall>s \<in> set (split_statements t). \<not> endswith s '';;'') \<longleftrightarrow> \<not> endswith ?e '';;''"
  proof (cases "?e = []")
    case True
    with shape stmts empty show ?thesis by simp
  next
    case False
    with shape have "set (split_statements t) =
        set (map (\<lambda>s. s @ '';'') (statements ?F)) \<union> {terminate ?e}" by simp
    with stmts endswith_terminate_two [of ?e] show ?thesis by auto
  qed
  have b: "\<not> endswith ?e '';;''"
    if "\<not> in_string ?F \<and> \<not> in_tblproperties ?F"
  proof -
    from ok that have "\<not> endswith ?e '';''" by (simp add: state_ok_def)
    then show ?thesis using endswith_two_imp_one by blast
  qed
  from a b show ?thesis by blast
qed

section \<open>Returned statements\<close>

text \<open>
  Claim C4, as amended. Every returned statement is not empty, starts and ends with a
  character that is no whitespace, and ends with a semicolon. Every statement but the last
  ends with exactly one semicolon. The last one does so too, unless the buffer left behind
  the loop, stripped, already ends with two semicolons; that buffer is returned as it is,
  and it can end with a semicolon only when the loop ends inside a literal or a region: when
  the loop ends outside both, every returned statement ends with exactly one semicolon.
  Candidates of whitespace alone are dropped, so the text of two blank candidates gives the
  empty list. This holds for the scan of any text and for the whole method on any input.
\<close>

theorem statements_trimmed_and_terminated:
  "(\<forall>s \<in> set (split_statements t).
      s \<noteq> [] \<and> \<not> is_space (hd s) \<and> \<not> is_space (last s) \<and> endswith s '';'')
   \<and> (\<forall>s \<in> set (butlast (split_statements t)). \<not> endswith s '';;'')
   \<and> ((\<forall>s \<in> set (split_statements t). \<not> endswith s '';;'') \<longleftrightarrow>
        \<not> endswith (strip (current (scan_loop init_state t []))) '';;'')
   \<and> (\<not> in_string (scan_loop init_state t [])
        \<and> \<not> in_tblproperties (scan_loop init_state t [])
        \<longrightarrow> (\<forall>s \<in> set (split_statements t). \<not> endswith s '';;''))
   \<and> (\<forall>s \<in> set (split_sql_statements x).
      s \<noteq> [] \<and> \<not> is_space (hd s) \<and> \<not> is_space (last s) \<and> endswith s '';'')
   \<and> (\<forall>s \<in> set (butlast (split_sql_statements x)). \<not> endswith s '';;'')
   \<and> ((\<forall>s \<in> set (split_sql_statements x). \<not> endswith s '';;'') \<longleftrightarrow>
        \<not> endswith (strip (current (scan_loop init_state
          (normalize_whitespace (strip_block_comments (strip_line_comments x))) []))) '';;'')
   \<and> (\<not> in_string (scan_loop init_state
          (normalize_whitespace (strip_block_comments (strip_line_comments x))) [])
        \<and> \<not> in_tblproperties (scan_loop init_state
          (normalize_whitespace (strip_block_comments (strip_line_comments x))) [])
        \<longrightarrow> (\<forall>s \<in> set (split_sql_statements x). \<not> endswith s '';;''))
   \<and> split_statements ''   ;  ;  '' = []
   \<and> split_sql_statements ''   ;  ;  '' = []"
proof -
  have ex1: "split_statements ''   ;  ;  '' = []" by code_simp
  have ex2: "split_sql_statements ''   ;  ;  '' = []" by code_simp
  have sql: "split_sql_statements x = split_statements
      (normalize_whitespace (strip_block_comments (strip_line_comments x)))"
    by (simp add: split_sql_statements_def)
  from split_statements_props [of t] split_statements_last [of t]
    split_statements_props [of "(normalize_whitespace (strip_block_comments (strip_line_comments x)))"]
    split_statements_last [of "(normalize_whitespace (strip_block_comments (strip_line_comments x)))"]
    ex1 ex2
  show ?thesis unfolding sql by (intro conjI) blast+
qed

theorem statements_trimmed_and_terminated_witness:
  "split_sql_statements ''SELECT 1; SELECT 2'' = [''SELECT 1;'', ''SELECT 2;'']
   \<and> \<not> is_space (hd ''SELECT 1;'') \<and> \<not> is_space (last ''SELECT 1;'')
   \<and> endswith ''SELECT 1;'' '';'' \<and> \<not> endswith ''SELECT 1;'' '';;''
   \<and> \<not> is_space (hd ''SELECT 2;'') \<and> \<not> is_space (last ''SELECT 2;'')
   \<and> endswith ''SELECT 2;'' '';'' \<and> \<not> endswith ''SELECT 2;'' '';;''"
proof -
  have e: "split_sql_statements ''SELECT 1; SELECT 2'' = [''SELECT 1;'', ''SELECT 2;'']"
    by code_simp
  have f1: "\<not> in_string (scan_loop init_state
      (normalize_whitespace (strip_block_comments (strip_line_comments ''SELECT 1; SELECT 2'')))
      [])"
    by code_simp
  have f2: "\<not> in_tblproperties (scan_loop init_state
      (normalize_whitespace (strip_block_comments (strip_line_comments ''SELECT 1; SELECT 2'')))
      [])"
    by code_simp
  from statements_trimmed_and_terminated [of "[]" "''SELECT 1; SELECT 2''"] f1 f2
  have "(\<forall>s \<in> set (split_sql_statements ''SELECT 1; SELECT 2'').
      s \<noteq> [] \<and> \<not> is_space (hd s) \<and> \<not> is_space (last s) \<and> endswith s '';'')
   \<and> (\<forall>s \<in> set (split_sql_statements ''SELECT 1; SELECT 2''). \<not> endswith s '';;'')"
    by blast
  then have "(\<forall>s \<in> set [''SELECT 1;'', ''SELECT 2;''].
      s \<noteq> [] \<and> \<not> is_space (hd s) \<and> \<not> is_space (last s) \<and> endswith s '';'')
   \<and> (\<forall>s \<in> set [''SELECT 1;'', ''SELECT 2;'']. \<not> endswith s '';;'')"
    unfolding e .
  then have "\<not> is_space (hd ''SELECT 1;'') \<and> \<not> is_space (last ''SELECT 1;'')
   \<and> endswith ''SELECT 1;'' '';'' \<and> \<not> endswith ''SELECT 1;'' '';;''
   \<and> \<not> is_space (hd ''SELECT 2;'') \<and> \<not> is_space (last ''SELECT 2;'')
   \<and> endswith ''SELECT 2;'' '';'' \<and> \<not> endswith ''SELECT 2;'' '';;''"
    by simp
  with e show ?thesis by (intro conjI) blast+
qed

text \<open>
  The claim as stated fails on the last statement: inside a literal that is never closed
  the semicolons join the buffer, and a trailing statement that already ends in a semicolon
  is returned as it is.
\<close>

theorem statements_trimmed_and_terminated_counterexample:
  "split_sql_statements (CHR 0x27 # ''a;;'') = [CHR 0x27 # ''a;;'']
   \<and> split_statements (CHR 0x27 # ''a;;'') = [CHR 0x27 # ''a;;'']
   \<and> endswith (CHR 0x27 # ''a;;'') '';;''"
  by code_simp

section \<open>Unterminated quotes\<close>

text \<open>
  Claim C5, as amended. When the loop meets an opening delimiter \<open>d\<close> outside a literal and
  outside a region, no \<open>d\<close> comes behind it, and the text behind it nowhere spells the
  keyword, then the statements are those collected before the delimiter and one trailing
  statement: the buffer at the delimiter and the whole remainder, stripped.
\<close>

theorem unterminated_quote_is_one_trailing_statement:
  assumes "st = scan_loop init_state pre (d # rest)"
    and "\<not> in_string st" and "\<not> in_tblproperties st"
    and "d \<in> set [CHR 0x27, CHR 0x22, CHR 0x60]"
    and "d \<notin> set rest" and "no_keyword rest []"
  shows "split_statements (pre @ d # rest) =
           map (\<lambda>s. s @ '';'') (statements st) @ [terminate (strip (current st @ d # rest))]"
proof -
  let ?st1 = "st\<lparr>in_string := True, string_delimiter := Some d, current := current st @ [d]\<rparr>"
  let ?st2 = "?st1\<lparr>current := current ?st1 @ rest\<rparr>"
  have "scan_loop init_state (pre @ d # rest) [] = scan_loop st (d # rest) []"
    using assms(1) scan_loop_append [of init_state pre "d # rest" "[]"] by simp
  also have "\<dots> = scan_loop (step st (d # rest)) rest []" by (simp del: step.simps)
  also have "step st (d # rest) = ?st1" using assms(2,3,4) by (rule step_open_quote)
  also have "scan_loop ?st1 rest [] = ?st2"
    using assms(3,5,6) by (intro scan_loop_quoted) auto
  finally have run: "scan_loop init_state (pre @ d # rest) [] = ?st2" .
  have "state_ok (scan_loop init_state (pre @ d # rest) [])"
    using state_ok_init by (rule state_ok_scan_loop)
  with run have ok: "state_ok ?st2" by simp
  from assms(4) have "\<not> is_space d" by (auto simp: is_space_def)
  then have ne: "strip (current st @ d # rest) \<noteq> []" by (auto simp: strip_eq_Nil_iff)
  show ?thesis
    using finish_state_ok [OF ok] ne run by (simp add: split_statements_def)
qed

theorem unterminated_quote_is_one_trailing_statement_witness:
  "split_statements (''SELECT 1; SELECT '' @ CHR 0x27 # ''a;b; c'') =
     map (\<lambda>s. s @ '';'') [''SELECT 1''] @ [terminate (strip ('' SELECT '' @ CHR 0x27 # ''a;b; c''))]"
proof -
  have 0: "scan_loop init_state ''SELECT 1; SELECT '' (CHR 0x27 # ''a;b; c'') =
    init_state\<lparr>statements := [''SELECT 1''], current := '' SELECT ''\<rparr>"
    by code_simp
  let ?st = "scan_loop init_state ''SELECT 1; SELECT '' (CHR 0x27 # ''a;b; c'')"
  have 1: "?st = scan_loop init_state ''SELECT 1; SELECT '' (CHR 0x27 # ''a;b; c'')" by (rule refl)
  have 2: "\<not> in_string ?st" and 3: "\<not> in_tblproperties ?st"
    unfolding 0 by (simp_all add: init_state_def)
  have 4: "CHR 0x27 \<in> set [CHR 0x27, CHR 0x22, CHR 0x60]" by simp
  have 5: "CHR 0x27 \<notin> set ''a;b; c''" by simp
  have 6: "no_keyword ''a;b; c'' []" by code_simp
  have 7: "statements ?st = [''SELECT 1'']" and 8: "current ?st = '' SELECT ''"
    unfolding 0 by (simp_all add: init_state_def)
  from unterminated_quote_is_one_trailing_statement [OF 1 2 3 4 5 6]
  show ?thesis unfolding 7 8 .
qed

text \<open>
  The claim as stated fails when the keyword stands behind the unterminated quote: the
  closing parenthesis of the region ends a statement although the literal is open.
\<close>

theorem unterminated_quote_counterexample:
  "CHR 0x27 \<notin> set ''TBLPROPERTIES)x''
   \<and> split_statements (CHR 0x27 # ''TBLPROPERTIES)x'') = [CHR 0x27 # ''TBLPROPERTIES);'', ''x;'']
   \<and> split_sql_statements (CHR 0x27 # ''TBLPROPERTIES)x'') =
       [CHR 0x27 # ''TBLPROPERTIES);'', ''x;'']"
  by code_simp

section \<open>Counting the statements\<close>

lemma length_emit:
  "length (emit cur stmts) = length stmts + (if strip cur \<noteq> [] then 1 else 0)"
  by (simp add: emit_def Let_def)

lemma step_counts:
  "length (statements (step st (c # cs))) =
     length (statements st)
     + (if c = CHR '';'' \<and> \<not> in_string st \<and> \<not> in_tblproperties st \<and> strip (current st) \<noteq> []
        then 1 else 0)
     + (if c = CHR '')'' \<and> in_tblproperties st then 1 else 0)"
proof (cases rule: step_cases [of c cs st])
  case keyword
  with tbl_keyword_hd_facts [OF keyword(1)] show ?thesis by simp
next
  case region_close
  then show ?thesis by simp
next
  case region
  then show ?thesis by simp
next
  case quote_close
  then show ?thesis by simp
next
  case quoted
  then show ?thesis by simp
next
  case quote_open
  then show ?thesis by auto
next
  case semicolon
  then show ?thesis by (simp add: length_emit)
next
  case plain
  then show ?thesis by simp
qed

lemma scan_loop_counts:
  "length (statements (scan_loop st body post)) =
     length (statements st) + count_emitting_semicolons st body post + count_closures st body post"
proof (induction body arbitrary: st)
  case Nil
  then show ?case by simp
next
  case (Cons c body)
  have "length (statements (scan_loop st (c # body) post)) =
      length (statements (scan_loop (step st (c # body @ post)) body post))"
    by (simp del: step.simps)
  also have "\<dots> = length (statements (step st (c # body @ post)))
      + count_emitting_semicolons (step st (c # body @ post)) body post
      + count_closures (step st (c # body @ post)) body post"
    by (rule Cons.IH)
  finally show ?case
    by (simp add: step_counts del: step.simps)
qed

lemma emitting_le_semicolons:
  "count_emitting_semicolons st body post \<le> count_semicolons st body post"
proof (induction body arbitrary: st)
  case Nil
  then show ?case by simp
next
  case (Cons c body)
  have "count_emitting_semicolons (step st (c # body @ post)) body post
      \<le> count_semicolons (step st (c # body @ post)) body post"
    by (rule Cons.IH)
  moreover have
    "(if c = CHR '';'' \<and> \<not> in_string st \<and> \<not> in_tblproperties st \<and> strip (current st) \<noteq> []
      then 1 else 0)
     \<le> (if c = CHR '';'' \<and> \<not> in_string st \<and> \<not> in_tblproperties st then 1 else (0::nat))"
    by simp
  ultimately show ?case
    unfolding count_emitting_semicolons.simps count_semicolons.simps by (rule add_mono [rotated])
qed

text \<open>
  Claim C6, as amended. The number of returned statements is the number of semicolons met
  outside a literal and outside a region while the buffer holds more than whitespace, plus
  the number of region closures, plus 1 if the buffer left at the end holds more than
  whitespace. It is at most the number the claim gives, which counts every semicolon met
  outside a literal and outside a region.
\<close>

theorem number_of_statements:
  "length (split_statements t) =
     count_emitting_semicolons init_state t [] + count_closures init_state t []
     + trailing_content (scan_loop init_state t [])
   \<and> length (split_statements t) \<le>
     count_semicolons init_state t [] + count_closures init_state t []
     + trailing_content (scan_loop init_state t [])"
proof -
  let ?st = "scan_loop init_state t []"
  have ok: "state_ok ?st" using state_ok_init by (rule state_ok_scan_loop)
  have "length (split_statements t) = length (statements ?st) + trailing_content ?st"
    using finish_state_ok [OF ok] by (simp add: split_statements_def trailing_content_def)
  also have "length (statements ?st) =
      count_emitting_semicolons init_state t [] + count_closures init_state t []"
    using scan_loop_counts [of init_state t "[]"] by (simp add: init_state_def)
  finally have eq: "length (split_statements t) =
      count_emitting_semicolons init_state t [] + count_closures init_state t []
      + trailing_content ?st" .
  with emitting_le_semicolons [of init_state t "[]"] show ?thesis by simp
qed

theorem number_of_statements_witness:
  "count_emitting_semicolons init_state ''SELECT 1;; SELECT 2'' [] = 1
   \<and> count_closures init_state ''SELECT 1;; SELECT 2'' [] = 0
   \<and> trailing_content (scan_loop init_state ''SELECT 1;; SELECT 2'' []) = 1
   \<and> length (split_statements ''SELECT 1;; SELECT 2'') = 2"
proof -
  have a: "count_emitting_semicolons init_state ''SELECT 1;; SELECT 2'' [] = 1" by code_simp
  have b: "count_closures init_state ''SELECT 1;; SELECT 2'' [] = 0" by code_simp
  have c: "trailing_content (scan_loop init_state ''SELECT 1;; SELECT 2'' []) = 1" by code_simp
  from number_of_statements [of "''SELECT 1;; SELECT 2''"]
  have "length (split_statements ''SELECT 1;; SELECT 2'') =
     count_emitting_semicolons init_state ''SELECT 1;; SELECT 2'' []
     + count_closures init_state ''SELECT 1;; SELECT 2'' []
     + trailing_content (scan_loop init_state ''SELECT 1;; SELECT 2'' [])"
    by (rule conjunct1)
  then have "length (split_statements ''SELECT 1;; SELECT 2'') = 2"
    unfolding a b c by simp
  with a b c show ?thesis by (intro conjI)
qed

text \<open>
  The claim as stated fails wherever a semicolon is met with a blank buffer: the text of the
  specification's own example holds two semicolons outside literal and region, no closure and
  no trailing content, and gives no statement.
\<close>

theorem number_of_statements_counterexample:
  "length (split_statements ''   ;  ;  '') = 0
   \<and> count_semicolons init_state ''   ;  ;  '' [] = 2
   \<and> count_closures init_state ''   ;  ;  '' [] = 0
   \<and> trailing_content (scan_loop init_state ''   ;  ;  '' []) = 0
   \<and> length (split_sql_statements ''   ;  ;  '') = 0"
  by code_simp

section \<open>Comment processing\<close>

lemma startswith_two:
  "startswith s [a, b] \<longleftrightarrow> (\<exists>r. s = a # b # r)"
  by (cases s; cases "tl s") (auto simp: startswith_def)

lemma find_close_first:
  assumes "\<not> contains body ''*/''"
  shows "find_close acc (body @ ''*/'' @ rest) = Some (acc @ body, rest)"
  using assms
proof (induction body arbitrary: acc)
  case Nil
  then show ?case by (simp add: startswith_def)
next
  case (Cons c body)
  from Cons.prems have c: "\<not> startswith (c # body) ''*/''" and body: "\<not> contains body ''*/''"
    by simp_all
  have "\<not> startswith (c # body @ ''*/'' @ rest) ''*/''"
    using c by (cases body) (auto simp: startswith_two)
  then have "find_close acc ((c # body) @ ''*/'' @ rest) =
      find_close (acc @ [c]) (body @ ''*/'' @ rest)"
    by simp
  also have "\<dots> = Some ((acc @ [c]) @ body, rest)" using body by (rule Cons.IH)
  finally show ?case by simp
qed

lemma strip_block_comments_at_match:
  assumes "\<not> contains body ''*/''"
  shows "strip_block_comments (''/*'' @ body @ ''*/'' @ rest) =
           remove_comments (''/*'' @ body @ ''*/'') @ strip_block_comments rest"
proof -
  have "find_close [] (body @ ''*/'' @ rest) = Some ([] @ body, rest)"
    using assms by (rule find_close_first)
  then show ?thesis by (simp add: startswith_def)
qed

lemma strip_block_comments_copy:
  assumes "\<not> contains pre ''/*''"
  shows "strip_block_comments (pre @ CHR ''/'' # CHR ''*'' # t) =
           pre @ strip_block_comments (CHR ''/'' # CHR ''*'' # t)"
  using assms
proof (induction pre)
  case Nil
  then show ?case by simp
next
  case (Cons c pre)
  from Cons.prems have c: "\<not> startswith (c # pre) ''/*''" and pre: "\<not> contains pre ''/*''"
    by simp_all
  have "\<not> startswith (c # pre @ CHR ''/'' # CHR ''*'' # t) ''/*''"
    using c by (cases pre) (auto simp: startswith_two)
  then have "strip_block_comments ((c # pre) @ CHR ''/'' # CHR ''*'' # t) =
      c # strip_block_comments (pre @ CHR ''/'' # CHR ''*'' # t)"
    by simp
  with Cons.IH [OF pre] show ?case by simp
qed

text \<open>
  Claim C8. The first multi-line comment of a text (no \<^verbatim>\<open>/*\<close> before it, no \<^verbatim>\<open>*/\<close> inside
  it, so that the lazy match ends where it ends) is kept as it is when its uppercased text
  holds one of the three markers, and is replaced by the empty text when it holds none; the
  text before it is copied, and the text behind it is processed in the same way, so the same
  holds of every later comment.
\<close>

theorem block_comment_kept_iff_protected:
  assumes "\<not> contains pre ''/*''" and "\<not> contains body ''*/''"
  shows "strip_block_comments (pre @ ''/*'' @ body @ ''*/'' @ rest) =
           pre @
           (if contains (upper (''/*'' @ body @ ''*/'')) ''TBLPROPERTIES''
               \<or> contains (upper (''/*'' @ body @ ''*/'')) ''CREATE ''
               \<or> contains (upper (''/*'' @ body @ ''*/'')) ''SCHEMA ''
            then ''/*'' @ body @ ''*/'' else []) @
           strip_block_comments rest"
proof -
  have "strip_block_comments (pre @ ''/*'' @ body @ ''*/'' @ rest) =
      pre @ strip_block_comments (''/*'' @ body @ ''*/'' @ rest)"
    using strip_block_comments_copy [OF assms(1), of "body @ ''*/'' @ rest"] by simp
  also have "strip_block_comments (''/*'' @ body @ ''*/'' @ rest) =
      remove_comments (''/*'' @ body @ ''*/'') @ strip_block_comments rest"
    using assms(2) by (rule strip_block_comments_at_match)
  finally show ?thesis by (simp add: remove_comments_def)
qed

theorem block_comment_kept_iff_protected_witness:
  "strip_block_comments (''a '' @ ''/*'' @ '' Create note '' @ ''*/'' @ '' b /* plain */ c'') =
     ''a /* Create note */ b  c''"
proof -
  have 1: "\<not> contains ''a '' ''/*''" by code_simp
  have 2: "\<not> contains '' Create note '' ''*/''" by code_simp
  have 3: "contains (upper (''/*'' @ '' Create note '' @ ''*/'')) ''CREATE ''" by code_simp
  have 4: "strip_block_comments '' b /* plain */ c'' = '' b  c''" by code_simp
  from block_comment_kept_iff_protected [OF 1 2, of "'' b /* plain */ c''"]
  show ?thesis unfolding 4 using 3 by simp
qed

lemma strip_line_comments_copy:
  assumes "\<not> contains (pre @ ''-'') ''--''"
  shows "strip_line_comments (pre @ CHR ''-'' # CHR ''-'' # t) =
           pre @ strip_line_comments (CHR ''-'' # CHR ''-'' # t)"
  using assms
proof (induction pre)
  case Nil
  then show ?case by simp
next
  case (Cons c pre)
  from Cons.prems have c: "\<not> startswith (c # pre @ ''-'') ''--''"
    and pre: "\<not> contains (pre @ ''-'') ''--''"
    by simp_all
  have "\<not> startswith (c # pre @ CHR ''-'' # CHR ''-'' # t) ''--''"
    using c by (cases pre) (auto simp: startswith_two)
  then have "strip_line_comments ((c # pre) @ CHR ''-'' # CHR ''-'' # t) =
      c # strip_line_comments (pre @ CHR ''-'' # CHR ''-'' # t)"
    by simp
  with Cons.IH [OF pre] show ?case by simp
qed

lemma dropWhile_to_line_end:
  assumes "CHR 0x0A \<notin> set tail" and "rest = [] \<or> hd rest = CHR 0x0A"
  shows "dropWhile (\<lambda>x. x \<noteq> CHR 0x0A) (tail @ rest) = rest"
proof -
  from assms(1) have "\<forall>x \<in> set tail. x \<noteq> CHR 0x0A" by auto
  then have "dropWhile (\<lambda>x. x \<noteq> CHR 0x0A) (tail @ rest) = dropWhile (\<lambda>x. x \<noteq> CHR 0x0A) rest"
    by (simp add: dropWhile_append)
  also have "\<dots> = rest" using assms(2) by (cases rest) auto
  finally show ?thesis .
qed

lemma strip_line_comments_at_match:
  assumes "CHR 0x0A \<notin> set tail" and "rest = [] \<or> hd rest = CHR 0x0A"
  shows "strip_line_comments (''--'' @ tail @ rest) = strip_line_comments rest"
proof -
  have "dropWhile (\<lambda>x. x \<noteq> CHR 0x0A) (CHR ''-'' # tail @ rest) = rest"
    using dropWhile_to_line_end [of "CHR ''-'' # tail" rest] assms by simp
  then show ?thesis by (simp add: startswith_def)
qed

lemma strip_line_comments_hd:
  assumes "\<not> startswith s ''-''"
  shows "\<not> startswith (strip_line_comments s) ''-''"
proof (cases s)
  case Nil
  then show ?thesis by (simp add: startswith_def)
next
  case (Cons c cs)
  with assms have "c \<noteq> CHR ''-''" by (simp add: startswith_def)
  then have "\<not> startswith (c # cs) ''--''" by (simp add: startswith_two)
  then show ?thesis using Cons \<open>c \<noteq> CHR ''-''\<close> by (simp add: startswith_def)
qed

lemma strip_line_comments_no_dashes: "\<not> contains (strip_line_comments s) ''--''"
proof (induction s rule: strip_line_comments.induct)
  case 1
  show ?case by simp
next
  case (2 c cs)
  show ?case
  proof (cases "startswith (c # cs) ''--''")
    case True
    with 2 show ?thesis by simp
  next
    case False
    with 2 have IH: "\<not> contains (strip_line_comments cs) ''--''" by simp
    have "\<not> startswith (c # strip_line_comments cs) ''--''"
    proof (cases "c = CHR ''-''")
      case True
      with False have "\<not> startswith cs ''-''"
        by (cases cs) (auto simp: startswith_def)
      then have "\<not> startswith (strip_line_comments cs) ''-''" by (rule strip_line_comments_hd)
      then show ?thesis by (cases "strip_line_comments cs") (auto simp: startswith_def)
    next
      case False
      then show ?thesis by (simp add: startswith_two)
    qed
    with False IH show ?thesis by simp
  qed
qed

text \<open>
  Claim C9. The single-line phase runs on the whole input before the multi-line phase. Where
  two dashes stand (none before them in \<open>pre\<close>), they and the rest of their line \<open>tail\<close> are
  deleted and the multi-line phase sees \<open>pre\<close> followed by what the single-line phase
  leaves of the later lines, whatever \<open>pre\<close> and \<open>tail\<close> hold: an opening \<^verbatim>\<open>/*\<close>, a
  closing \<^verbatim>\<open>*/\<close>, a quote. What the single-line phase returns holds no two dashes in
  a row, so no comment that held them reaches the marker test as it was. In the examples a
  protected comment loses its end, and with it the statement behind it; a protected comment
  over two lines is kept without the dashes and the text behind them; a literal of two dashes
  is cut.
\<close>

theorem line_comments_removed_first:
  assumes "\<not> contains (pre @ ''-'') ''--''"
    and "CHR 0x0A \<notin> set tail" and "rest = [] \<or> hd rest = CHR 0x0A"
  shows "split_sql_statements (pre @ ''--'' @ tail @ rest) =
           split_statements
             (normalize_whitespace (strip_block_comments (pre @ strip_line_comments rest)))
       \<and> \<not> contains (strip_line_comments x) ''--''
       \<and> split_sql_statements ''/* CREATE -- x */ SELECT 1;'' = [''/* CREATE;'']
       \<and> split_sql_statements
           (''/* CREATE -- note'' @ [CHR 0x0A] @ ''TABLE */ SELECT 1;'') =
           [''/* CREATE'' @ [CHR 0x0A] @ ''TABLE */ SELECT 1;'']
       \<and> split_sql_statements (''SELECT '' @ [CHR 0x27] @ ''--'' @ [CHR 0x27] @ '';'') =
           [''SELECT '' @ [CHR 0x27] @ '';'']"
proof -
  have "strip_line_comments (pre @ ''--'' @ tail @ rest) =
      pre @ strip_line_comments (''--'' @ tail @ rest)"
    using strip_line_comments_copy [OF assms(1), of "tail @ rest"] by simp
  also have "strip_line_comments (''--'' @ tail @ rest) = strip_line_comments rest"
    using assms(2,3) by (rule strip_line_comments_at_match)
  finally have 1: "split_sql_statements (pre @ ''--'' @ tail @ rest) =
      split_statements
        (normalize_whitespace (strip_block_comments (pre @ strip_line_comments rest)))"
    by (simp add: split_sql_statements_def)
  have 2: "\<not> contains (strip_line_comments x) ''--''" by (rule strip_line_comments_no_dashes)
  have 3: "split_sql_statements ''/* CREATE -- x */ SELECT 1;'' = [''/* CREATE;'']"
    by code_simp
  have 4: "split_sql_statements
      (''/* CREATE -- note'' @ [CHR 0x0A] @ ''TABLE */ SELECT 1;'') =
      [''/* CREATE'' @ [CHR 0x0A] @ ''TABLE */ SELECT 1;'']"
    by code_simp
  have 5: "split_sql_statements (''SELECT '' @ [CHR 0x27] @ ''--'' @ [CHR 0x27] @ '';'') =
      [''SELECT '' @ [CHR 0x27] @ '';'']"
    by code_simp
  from 1 2 3 4 5 show ?thesis by (intro conjI)
qed

theorem line_comments_removed_first_witness:
  "split_sql_statements (''/* CREATE '' @ ''--'' @ '' x */ SELECT 1;'' @ []) =
     split_statements (normalize_whitespace (strip_block_comments (''/* CREATE '' @ strip_line_comments [])))"
proof -
  have 1: "\<not> contains (''/* CREATE '' @ ''-'') ''--''" by code_simp
  have 2: "CHR 0x0A \<notin> set '' x */ SELECT 1;''" by simp
  have 3: "([]::string) = [] \<or> hd ([]::string) = CHR 0x0A" by simp
  from line_comments_removed_first [OF 1 2 3]
  show ?thesis by (rule conjunct1)
qed

section \<open>The keyword test looks at letters only\<close>

lemma of_char_char_of_small: "n < 256 \<Longrightarrow> (of_char (char_of n :: char) :: nat) = n"
  by simp

lemma upper_char_cases:
  obtains (lower) "97 \<le> (of_char c :: nat)" "(of_char c :: nat) \<le> 122"
      "upper_char c = [char_of ((of_char c :: nat) - 32)]"
  | (sharp) "upper_char c = ''SS''"
  | (latin) "224 \<le> (of_char c :: nat)" "(of_char c :: nat) \<le> 254"
      "upper_char c = [char_of ((of_char c :: nat) - 32)]"
  | (same) "\<not> (97 \<le> (of_char c :: nat) \<and> (of_char c :: nat) \<le> 122)" "upper_char c = [c]"
proof -
  let ?n = "of_char c :: nat"
  consider (a) "97 \<le> ?n \<and> ?n \<le> 122" | (b) "\<not> (97 \<le> ?n \<and> ?n \<le> 122)" "?n = 223"
    | (c) "\<not> (97 \<le> ?n \<and> ?n \<le> 122)" "?n \<noteq> 223" "224 \<le> ?n \<and> ?n \<le> 254 \<and> ?n \<noteq> 247"
    | (d) "\<not> (97 \<le> ?n \<and> ?n \<le> 122)" "?n \<noteq> 223" "\<not> (224 \<le> ?n \<and> ?n \<le> 254 \<and> ?n \<noteq> 247)"
    by blast
  then show thesis
  proof cases
    case a
    then have "upper_char c = [char_of (?n - 32)]" by (simp add: upper_char_def Let_def)
    with a lower show ?thesis by blast
  next
    case b
    then have "upper_char c = ''SS''" by (simp add: upper_char_def Let_def)
    with sharp show ?thesis by blast
  next
    case c
    then have "upper_char c = [char_of (?n - 32)]"
      unfolding upper_char_def Let_def by (simp only: if_False if_True simp_thms)
    with c latin show ?thesis by blast
  next
    case d
    then have "upper_char c = [c]"
      unfolding upper_char_def Let_def by (simp only: if_False)
    with d same show ?thesis by blast
  qed
qed

lemma upper_eq_capitals:
  assumes "upper s = ys" and "\<forall>y \<in> set ys. capital y" and "\<not> contains ys ''SS''"
  shows "length s = length ys \<and> (\<forall>c \<in> set s. is_alpha c)"
  using assms
proof (induction s arbitrary: ys)
  case Nil
  then show ?case by (simp add: upper_def)
next
  case (Cons c s)
  from Cons.prems(1) have eq: "upper_char c @ upper s = ys" by (simp add: upper_def)
  show ?case
  proof (cases rule: upper_char_cases [of c])
    case lower
    with eq obtain ys' where ys: "ys = char_of ((of_char c :: nat) - 32) # ys'"
      and s: "upper s = ys'" by auto
    from Cons.prems(2,3) ys have "\<forall>y \<in> set ys'. capital y" and "\<not> contains ys' ''SS''"
      by simp_all
    with Cons.IH [OF s] have "length s = length ys' \<and> (\<forall>c \<in> set s. is_alpha c)" by blast
    moreover from lower have "is_alpha c" by (simp add: is_alpha_def Let_def)
    ultimately show ?thesis using ys by simp
  next
    case sharp
    with eq have "startswith ys ''SS''" by (auto simp: startswith_def)
    with Cons.prems(3) show ?thesis by (cases ys) (simp_all add: startswith_def)
  next
    case latin
    with eq obtain ys' where ys: "ys = char_of ((of_char c :: nat) - 32) # ys'" by auto
    with Cons.prems(2) have "capital (char_of ((of_char c :: nat) - 32))" by simp
    moreover have "(of_char c :: nat) - 32 < 256" using latin(2) by linarith
    ultimately have "(of_char c :: nat) - 32 \<le> 90"
      by (simp add: capital_def)
    with latin(1) show ?thesis by linarith
  next
    case same
    with eq obtain ys' where ys: "ys = c # ys'" and s: "upper s = ys'" by auto
    from Cons.prems(2,3) ys have "\<forall>y \<in> set ys'. capital y" and "\<not> contains ys' ''SS''"
      by simp_all
    with Cons.IH [OF s] have "length s = length ys' \<and> (\<forall>c \<in> set s. is_alpha c)" by blast
    moreover from Cons.prems(2) ys have "capital c" by simp
    then have "is_alpha c" by (simp add: is_alpha_def capital_def Let_def)
    ultimately show ?thesis using ys by simp
  qed
qed

lemma tbl_keyword_letters:
  assumes "tbl_keyword s"
  shows "13 \<le> length s \<and> (\<forall>c \<in> set (take 13 s). is_alpha c)"
proof -
  have 1: "upper (take 13 s) = ''TBLPROPERTIES''" using assms by (simp add: tbl_keyword_def)
  have 2: "\<forall>y \<in> set ''TBLPROPERTIES''. capital y" by (simp add: capital_def)
  have 3: "\<not> contains ''TBLPROPERTIES'' ''SS''" by code_simp
  from upper_eq_capitals [OF 1 2 3]
  have "length (take 13 s) = 13" and "\<forall>c \<in> set (take 13 s). is_alpha c" by simp_all
  then show ?thesis by simp
qed

lemma tbl_keyword_inert:
  assumes "inert p" and "inert p'"
  shows "tbl_keyword (x @ p) = tbl_keyword (x @ p')"
proof (cases "13 \<le> length x")
  case True
  then show ?thesis by (simp add: tbl_keyword_def)
next
  case False
  have no: "\<not> tbl_keyword (x @ q)" if q: "inert q" for q
  proof
    assume kw: "tbl_keyword (x @ q)"
    from tbl_keyword_letters [OF kw]
    have len: "13 \<le> length (x @ q)" and al: "\<forall>c \<in> set (take 13 (x @ q)). is_alpha c"
      by blast+
    from len False have "q \<noteq> []" by auto
    then obtain a q' where q': "q = a # q'" by (cases q) auto
    from False obtain n where "13 - length x = Suc n" by (cases "13 - length x") auto
    then have "a \<in> set (take 13 (x @ q))" using q' by simp
    with al have "is_alpha a" by blast
    with q q' show False by (simp add: inert_def)
  qed
  from no [OF assms(1)] no [OF assms(2)] show ?thesis by simp
qed

section \<open>Passes that reset no buffer\<close>

lemma step_not_boundary:
  assumes "\<not> boundary st c"
  shows "statements (step st (c # cs)) = statements st"
    and "current (step st (c # cs)) = current st @ [c]"
proof -
  have "statements (step st (c # cs)) = statements st \<and>
      current (step st (c # cs)) = current st @ [c]"
  proof (cases rule: step_cases [of c cs st])
    case keyword
    then show ?thesis by simp
  next
    case region_close
    with assms show ?thesis by (simp add: boundary_def)
  next
    case region
    then show ?thesis by simp
  next
    case quote_close
    then show ?thesis by simp
  next
    case quoted
    then show ?thesis by simp
  next
    case quote_open
    then show ?thesis by simp
  next
    case semicolon
    with assms show ?thesis by (simp add: boundary_def)
  next
    case plain
    then show ?thesis by simp
  qed
  then show "statements (step st (c # cs)) = statements st"
    and "current (step st (c # cs)) = current st @ [c]" by blast+
qed

lemma boundary_same_mode: "same_mode st st' \<Longrightarrow> boundary st c = boundary st' c"
  by (auto simp: same_mode_def boundary_def)

lemma step_same_mode:
  assumes "same_mode st st'" and "tbl_keyword (c # cs) = tbl_keyword (c # cs')"
  shows "same_mode (step st (c # cs)) (step st' (c # cs'))"
  using assms by (auto simp: same_mode_def Let_def)

lemma scan_loop_same_mode:
  assumes "same_mode st st'" and "inert p" and "inert p'"
  shows "same_mode (scan_loop st a p) (scan_loop st' a p') \<and> quiet st a p = quiet st' a p'"
  using assms(1)
proof (induction a arbitrary: st st')
  case Nil
  then show ?case by simp
next
  case (Cons c a)
  have kw: "tbl_keyword (c # a @ p) = tbl_keyword (c # a @ p')"
    using tbl_keyword_inert [OF assms(2,3), of "c # a"] by simp
  from Cons.prems kw have "same_mode (step st (c # a @ p)) (step st' (c # a @ p'))"
    by (rule step_same_mode)
  from Cons.IH [OF this] boundary_same_mode [OF Cons.prems, of c]
  show ?case by (simp del: step.simps)
qed

lemma quiet_scan_loop:
  assumes "quiet st a p"
  shows "statements (scan_loop st a p) = statements st \<and>
         current (scan_loop st a p) = current st @ a"
  using assms
proof (induction a arbitrary: st)
  case Nil
  then show ?case by simp
next
  case (Cons c a)
  from Cons.prems have nb: "\<not> boundary st c" and q: "quiet (step st (c # a @ p)) a p"
    by simp_all
  from Cons.IH [OF q] step_not_boundary [OF nb, of "a @ p"]
  show ?case by (simp del: step.simps)
qed

lemma quiet_append:
  "quiet st (a @ b) p \<longleftrightarrow> quiet st a (b @ p) \<and> quiet (scan_loop st a (b @ p)) b p"
  by (induction a arbitrary: st) (simp_all del: step.simps)

lemma closes_in_literal_append:
  "closes_in_literal st (a @ b) p \<longleftrightarrow>
     closes_in_literal st a (b @ p) \<or> closes_in_literal (scan_loop st a (b @ p)) b p"
  by (induction a arbitrary: st) (simp_all del: step.simps)

lemma step_space:
  assumes "is_space c"
    and "in_string st \<longrightarrow> (\<exists>d \<in> set [CHR 0x27, CHR 0x22, CHR 0x60]. string_delimiter st = Some d)"
  shows "step st (c # cs) = st\<lparr>current := current st @ [c]\<rparr>"
proof (cases rule: step_cases [of c cs st])
  case keyword
  with assms(1) tbl_keyword_hd_facts(1) show ?thesis by blast
next
  case region_close
  with assms(1) show ?thesis by (simp add: is_space_def)
next
  case region
  then show ?thesis by simp
next
  case quote_close
  with assms show ?thesis by (auto simp: is_space_def)
next
  case quoted
  then show ?thesis by simp
next
  case quote_open
  with assms(1) show ?thesis by (auto simp: is_space_def)
next
  case semicolon
  with assms(1) show ?thesis by (simp add: is_space_def)
next
  case plain
  then show ?thesis by simp
qed

lemma scan_loop_spaces:
  assumes "\<forall>c \<in> set w. is_space c"
    and "in_string st \<longrightarrow> (\<exists>d \<in> set [CHR 0x27, CHR 0x22, CHR 0x60]. string_delimiter st = Some d)"
  shows "scan_loop st w p = st\<lparr>current := current st @ w\<rparr> \<and> quiet st w p"
  using assms
proof (induction w arbitrary: st)
  case Nil
  then show ?case by simp
next
  case (Cons c w)
  from Cons.prems have c: "is_space c" and w: "\<forall>c \<in> set w. is_space c" by simp_all
  have s: "step st (c # w @ p) = st\<lparr>current := current st @ [c]\<rparr>"
    using c Cons.prems(2) by (rule step_space)
  have nb: "\<not> boundary st c" using c by (auto simp: boundary_def is_space_def)
  have "scan_loop (st\<lparr>current := current st @ [c]\<rparr>) w p =
      st\<lparr>current := current st @ [c]\<rparr>\<lparr>current := current (st\<lparr>current := current st @ [c]\<rparr>) @ w\<rparr>
      \<and> quiet (st\<lparr>current := current st @ [c]\<rparr>) w p"
    using w Cons.prems(2) by (intro Cons.IH) simp_all
  with s nb show ?case by (simp del: step.simps)
qed

lemma first_boundary:
  assumes "\<not> quiet st t p"
  shows "\<exists>seg b t'. t = seg @ b # t' \<and> quiet st seg (b # t' @ p)
           \<and> boundary (scan_loop st seg (b # t' @ p)) b"
  using assms
proof (induction t arbitrary: st)
  case Nil
  then show ?case by simp
next
  case (Cons c t)
  show ?case
  proof (cases "boundary st c")
    case True
    then have "c # t = [] @ c # t \<and> quiet st [] (c # t @ p)
        \<and> boundary (scan_loop st [] (c # t @ p)) c" by simp
    then show ?thesis by blast
  next
    case False
    with Cons.prems have "\<not> quiet (step st (c # t @ p)) t p" by simp
    from Cons.IH [OF this] obtain seg b t' where t: "t = seg @ b # t'"
      and q: "quiet (step st (c # t @ p)) seg (b # t' @ p)"
      and b: "boundary (scan_loop (step st (c # t @ p)) seg (b # t' @ p)) b" by blast
    from t q b False have "c # t = (c # seg) @ b # t' \<and> quiet st (c # seg) (b # t' @ p)
        \<and> boundary (scan_loop st (c # seg) (b # t' @ p)) b"
      by (simp del: step.simps)
    then show ?thesis by blast
  qed
qed

lemma strip_decomposition:
  obtains w1 w2 where "s = w1 @ strip s @ w2"
    and "\<forall>c \<in> set w1. is_space c" and "\<forall>c \<in> set w2. is_space c"
proof -
  let ?d = "dropWhile is_space s"
  let ?w1 = "takeWhile is_space s"
  let ?w2 = "rev (takeWhile is_space (rev ?d))"
  have "rev (takeWhile is_space (rev ?d) @ dropWhile is_space (rev ?d)) =
      rev (dropWhile is_space (rev ?d)) @ rev (takeWhile is_space (rev ?d))"
    by (rule rev_append)
  moreover have "rev (takeWhile is_space (rev ?d) @ dropWhile is_space (rev ?d)) = ?d"
    by (simp only: takeWhile_dropWhile_id rev_rev_ident)
  ultimately have "?d = strip s @ ?w2" by (simp only: strip_def)
  then have "?w1 @ ?d = ?w1 @ strip s @ ?w2" by (rule arg_cong)
  then have 1: "s = ?w1 @ strip s @ ?w2" by simp
  have 2: "\<forall>c \<in> set ?w1. is_space c" by (auto dest: set_takeWhileD)
  have 3: "\<forall>c \<in> set ?w2. is_space c" by (auto dest: set_takeWhileD)
  from that [OF 1 2 3] show thesis .
qed

section \<open>Scanning a statement again\<close>

lemma same_mode_sym: "same_mode st st' \<Longrightarrow> same_mode st' st"
  by (auto simp: same_mode_def)

lemma same_mode_trans: "same_mode a b \<Longrightarrow> same_mode b c \<Longrightarrow> same_mode a c"
  by (auto simp: same_mode_def)

lemma same_mode_current: "same_mode (st\<lparr>current := x\<rparr>) st"
  by (simp add: same_mode_def)

lemma space_not_alpha: "is_space c \<Longrightarrow> \<not> is_alpha c"
  by (auto simp: is_space_def is_alpha_def Let_def)

lemma inert_simps [simp]: "inert []" "inert (CHR '';'' # x)" "inert (CHR '')'' # x)"
  by (simp_all add: inert_def is_alpha_def Let_def)

lemma inert_spaces:
  assumes "\<forall>c \<in> set w. is_space c" and "inert p"
  shows "inert (w @ p)"
proof (cases w)
  case Nil
  with assms(2) show ?thesis by simp
next
  case (Cons c w')
  with assms(1) have "is_space c" by simp
  then show ?thesis using Cons by (simp add: inert_def space_not_alpha)
qed

lemma state_ok_delimiter:
  "state_ok st \<Longrightarrow>
     in_string st \<longrightarrow> (\<exists>d \<in> set [CHR 0x27, CHR 0x22, CHR 0x60]. string_delimiter st = Some d)"
  by (simp add: state_ok_def)

lemma replay:
  assumes w1: "\<forall>c \<in> set w1. is_space c" and w2: "\<forall>c \<in> set w2. is_space c"
    and q: "quiet st (w1 @ mid @ w2) p" and sm: "same_mode st st'" and ok: "state_ok st"
    and p: "inert p" and p': "inert p'"
  shows "quiet st' mid p' \<and> same_mode (scan_loop st (w1 @ mid @ w2) p) (scan_loop st' mid p')"
proof -
  let ?st1 = "scan_loop st w1 ((mid @ w2) @ p)"
  let ?st2 = "scan_loop ?st1 mid (w2 @ p)"
  let ?st3 = "scan_loop ?st2 w2 p"
  have 1: "?st1 = st\<lparr>current := current st @ w1\<rparr>"
    using scan_loop_spaces [OF w1 state_ok_delimiter [OF ok]] by blast
  then have sm1: "same_mode ?st1 st'"
    using same_mode_current [where st = st] sm same_mode_trans by metis
  from q have q1: "quiet ?st1 (mid @ w2) p" by (simp only: quiet_append)
  then have q2: "quiet ?st1 mid (w2 @ p)" and q3: "quiet ?st2 w2 p"
    by (simp_all only: quiet_append)
  have ip: "inert (w2 @ p)" using w2 p by (rule inert_spaces)
  from scan_loop_same_mode [OF sm1 ip p', of mid] q2
  have sm2: "same_mode ?st2 (scan_loop st' mid p')" and qq: "quiet st' mid p'" by blast+
  have ok2: "state_ok ?st2" using ok by (intro state_ok_scan_loop)
  have "?st3 = ?st2\<lparr>current := current ?st2 @ w2\<rparr>"
    using scan_loop_spaces [OF w2 state_ok_delimiter [OF ok2]] by blast
  then have "same_mode ?st3 ?st2" using same_mode_current [where st = ?st2] by simp
  from this sm2 have sm3: "same_mode ?st3 (scan_loop st' mid p')" by (rule same_mode_trans)
  have "scan_loop st (w1 @ mid @ w2) p = ?st3"
    by (simp only: scan_loop_append append_assoc)
  with sm3 qq show ?thesis by simp
qed

lemma finish_clean:
  assumes "clean st" and "state_ok st"
  shows "finish st = map (\<lambda>s. s @ '';'') (statements st)"
  using finish_state_ok [OF assms(2)] assms(1) by (simp add: clean_def)

lemma step_semicolon_busy:
  assumes "in_string st \<or> in_tblproperties st" and "state_ok st"
  shows "step st (CHR '';'' # cs) = st\<lparr>current := current st @ '';''\<rparr>"
proof (cases rule: step_cases [of "CHR '';''" cs st])
  case keyword
  with tbl_keyword_hd_facts(2) show ?thesis by blast
next
  case region_close
  then show ?thesis by simp
next
  case region
  then show ?thesis by simp
next
  case quote_close
  with state_ok_delimiter [OF assms(2)] show ?thesis by auto
next
  case quoted
  then show ?thesis by simp
next
  case quote_open
  with assms(1) show ?thesis by simp
next
  case semicolon
  with assms(1) show ?thesis by simp
next
  case plain
  with assms(1) show ?thesis by simp
qed

lemma strip_stripped_snoc:
  assumes "e \<noteq> []" and "strip e = e" and "\<not> is_space c"
  shows "strip (e @ [c]) = e @ [c]"
proof -
  from assms(1,2) have "\<not> is_space (hd e)" using strip_hd [of e] by simp
  with assms(1) have "dropWhile is_space e = e" by (cases e) simp_all
  with assms(3) show ?thesis by (simp add: strip_snoc_nonspace)
qed

lemma rescan_quiet:
  assumes cl: "clean st" and ok: "state_ok st" and q: "quiet st t []"
  shows "\<exists>out. finish (scan_loop st t []) = finish st @ out \<and>
           (\<forall>st'. clean st' \<and> state_ok st' \<longrightarrow>
              finish (scan_loop st' (concat out) []) = finish st' @ out)"
proof -
  let ?F = "scan_loop st t []"
  define e where "e = strip t"
  from quiet_scan_loop [OF q] cl have sF: "statements ?F = statements st"
    and cF: "current ?F = t" by (simp_all add: clean_def)
  have okF: "state_ok ?F" using ok by (rule state_ok_scan_loop)
  have fF: "finish ?F = finish st @ (if e \<noteq> [] then [terminate e] else [])"
    using finish_state_ok [OF okF] finish_clean [OF cl ok] sF cF by (simp add: e_def)
  show ?thesis
  proof (cases "e = []")
    case True
    have "finish ?F = finish st @ []" using fF True by simp
    moreover have "\<forall>st'. clean st' \<and> state_ok st' \<longrightarrow>
        finish (scan_loop st' (concat []) []) = finish st' @ []" by simp
    ultimately show ?thesis by blast
  next
    case ne: False
    obtain w1 w2 where t: "t = w1 @ e @ w2"
      and w1: "\<forall>c \<in> set w1. is_space c" and w2: "\<forall>c \<in> set w2. is_space c"
      unfolding e_def by (rule strip_decomposition)
    have e: "strip e = e" unfolding e_def by (rule strip_idem)
    from q t have q': "quiet st (w1 @ e @ w2) []" by simp
    have resc: "finish (scan_loop st' (concat [terminate e]) []) = finish st' @ [terminate e]"
      if cl': "clean st'" and ok': "state_ok st'" for st'
    proof -
      have sm: "same_mode st st'" using cl cl' by (simp add: clean_def same_mode_def)
      have fin': "finish st' = map (\<lambda>s. s @ '';'') (statements st')"
        using cl' ok' by (rule finish_clean)
      show ?thesis
      proof (cases "endswith e '';''")
        case True
        then have te: "terminate e = e" by (simp add: terminate_def)
        let ?F' = "scan_loop st' e []"
        from replay [OF w1 w2 q' sm ok, where p' = "[]"]
        have qq: "quiet st' e []" by simp
        from quiet_scan_loop [OF qq] cl' have s': "statements ?F' = statements st'"
          and c': "current ?F' = e" by (simp_all add: clean_def)
        have "state_ok ?F'" using ok' by (rule state_ok_scan_loop)
        from finish_state_ok [OF this] have "finish ?F' = finish st' @ [terminate e]"
          using s' c' e ne fin' by simp
        then show ?thesis using te by simp
      next
        case False
        then have te: "terminate e = e @ '';''" by (simp add: terminate_def)
        let ?F' = "scan_loop st' e '';''"
        let ?G = "step ?F' '';''"
        from replay [OF w1 w2 q' sm ok, where p' = "'';''"]
        have qq: "quiet st' e '';''"
          and sm': "same_mode (scan_loop st (w1 @ e @ w2) []) ?F'" by simp_all
        from sm' t have smF: "same_mode ?F ?F'" by simp
        from quiet_scan_loop [OF qq] cl' have s': "statements ?F' = statements st'"
          and c': "current ?F' = e" by (simp_all add: clean_def)
        have okF': "state_ok ?F'" using ok' by (rule state_ok_scan_loop)
        then have okG: "state_ok ?G" by (rule state_ok_step)
        have run: "scan_loop st' (e @ '';'') [] = ?G"
          using scan_loop_append [of st' e "'';''" "[]"] by (simp del: step.simps)
        have "finish ?G = finish st' @ [e @ '';'']"
        proof (cases "in_string ?F' \<or> in_tblproperties ?F'")
          case True
          from step_semicolon_busy [OF True okF', of "[]"]
          have G: "?G = ?F'\<lparr>current := current ?F' @ '';''\<rparr>" .
          have semi: "\<not> is_space (CHR '';'')" by (simp add: is_space_def)
          have st: "strip (e @ '';'') = e @ '';''"
            using ne e semi by (rule strip_stripped_snoc)
          have "terminate (e @ '';'') = e @ '';''"
            by (simp add: terminate_def endswith_semicolon_iff)
          with finish_state_ok [OF okG] G s' c' st fin' show ?thesis by simp
        next
          case False
          then have "\<not> in_string ?F'" and "\<not> in_tblproperties ?F'" by simp_all
          from step_semicolon [OF this, of "[]"]
          have G: "?G = ?F'\<lparr>statements := emit (current ?F') (statements ?F'), current := []\<rparr>" .
          have "emit e (statements st') = statements st' @ [e]"
            using e ne by (simp add: emit_def Let_def)
          with finish_state_ok [OF okG] G s' c' fin' show ?thesis by simp
        qed
        with run te show ?thesis by simp
      qed
    qed
    have "finish ?F = finish st @ [terminate e]" using fF ne by simp
    with resc show ?thesis by blast
  qed
qed

lemma emit_blank: "strip cur = [] \<Longrightarrow> emit cur stmts = stmts"
  by (simp add: emit_def)

lemma emit_stripped: "strip cur \<noteq> [] \<Longrightarrow> emit cur stmts = stmts @ [strip cur]"
  by (simp add: emit_def)

lemma rescan_semicolon:
  assumes cl: "clean st" and ok: "state_ok st" and q: "quiet st seg (CHR '';'' # t')"
    and ns: "\<not> in_string (scan_loop st seg (CHR '';'' # t'))"
    and nt: "\<not> in_tblproperties (scan_loop st seg (CHR '';'' # t'))"
  shows "\<exists>out. clean (scan_loop st (seg @ '';'') t') \<and> state_ok (scan_loop st (seg @ '';'') t')
           \<and> finish (scan_loop st (seg @ '';'') t') = finish st @ out
           \<and> (\<forall>st' u'. clean st' \<and> state_ok st' \<longrightarrow>
                 clean (scan_loop st' (concat out) u') \<and> state_ok (scan_loop st' (concat out) u')
                 \<and> finish (scan_loop st' (concat out) u') = finish st' @ out)"
proof -
  let ?S = "scan_loop st seg (CHR '';'' # t')"
  let ?C = "scan_loop st (seg @ '';'') t'"
  define e where "e = strip seg"
  from quiet_scan_loop [OF q] cl have sS: "statements ?S = statements st"
    and cS: "current ?S = seg" by (simp_all add: clean_def)
  have okS: "state_ok ?S" using ok by (rule state_ok_scan_loop)
  have C: "?C = ?S\<lparr>statements := emit seg (statements st), current := []\<rparr>"
    using scan_loop_append [of st seg "'';''" t'] step_semicolon [OF ns nt, of t'] sS cS
    by (simp del: step.simps)
  have okC: "state_ok ?C" using ok by (rule state_ok_scan_loop)
  have clC: "clean ?C" using C ns nt by (simp add: clean_def)
  have fin: "finish st = map (\<lambda>s. s @ '';'') (statements st)" using cl ok by (rule finish_clean)
  have finC: "finish ?C = map (\<lambda>s. s @ '';'') (emit seg (statements st))"
    using finish_clean [OF clC okC] C by simp
  show ?thesis
  proof (cases "e = []")
    case True
    then have "finish ?C = finish st @ []" using finC fin by (simp add: emit_blank e_def)
    moreover have "\<forall>st' u'. clean st' \<and> state_ok st' \<longrightarrow>
        clean (scan_loop st' (concat []) u') \<and> state_ok (scan_loop st' (concat []) u')
        \<and> finish (scan_loop st' (concat []) u') = finish st' @ []" by simp
    ultimately show ?thesis using clC okC by blast
  next
    case ne: False
    obtain w1 w2 where seg: "seg = w1 @ e @ w2"
      and w1: "\<forall>c \<in> set w1. is_space c" and w2: "\<forall>c \<in> set w2. is_space c"
      unfolding e_def by (rule strip_decomposition)
    have e: "strip e = e" unfolding e_def by (rule strip_idem)
    from q seg have q': "quiet st (w1 @ e @ w2) (CHR '';'' # t')" by simp
    have 1: "finish ?C = finish st @ [e @ '';'']"
      using finC fin ne by (simp add: emit_stripped e_def)
    have 2: "clean (scan_loop st' (concat [e @ '';'']) u')
        \<and> state_ok (scan_loop st' (concat [e @ '';'']) u')
        \<and> finish (scan_loop st' (concat [e @ '';'']) u') = finish st' @ [e @ '';'']"
      if cl': "clean st'" and ok': "state_ok st'" for st' u'
    proof -
      let ?F' = "scan_loop st' e (CHR '';'' # u')"
      let ?C' = "scan_loop st' (e @ '';'') u'"
      have sm: "same_mode st st'" using cl cl' by (simp add: clean_def same_mode_def)
      from replay [OF w1 w2 q' sm ok, where p' = "CHR '';'' # u'"]
      have qq: "quiet st' e (CHR '';'' # u')"
        and sm': "same_mode (scan_loop st (w1 @ e @ w2) (CHR '';'' # t')) ?F'" by simp_all
      from sm' seg ns nt have ns': "\<not> in_string ?F'" and nt': "\<not> in_tblproperties ?F'"
        by (simp_all add: same_mode_def)
      from quiet_scan_loop [OF qq] cl' have s': "statements ?F' = statements st'"
        and c': "current ?F' = e" by (simp_all add: clean_def)
      have C': "?C' = ?F'\<lparr>statements := emit e (statements st'), current := []\<rparr>"
        using scan_loop_append [of st' e "'';''" u'] step_semicolon [OF ns' nt', of u'] s' c'
        by (simp del: step.simps)
      have okC': "state_ok ?C'" using ok' by (rule state_ok_scan_loop)
      have clC': "clean ?C'" using C' ns' nt' by (simp add: clean_def)
      have "finish st' = map (\<lambda>s. s @ '';'') (statements st')" using cl' ok' by (rule finish_clean)
      moreover have "finish ?C' = map (\<lambda>s. s @ '';'') (emit e (statements st'))"
        using finish_clean [OF clC' okC'] C' by simp
      ultimately have "finish ?C' = finish st' @ [e @ '';'']"
        using e ne by (simp add: emit_stripped)
      with clC' okC' show ?thesis by simp
    qed
    from 1 2 clC okC show ?thesis by blast
  qed
qed

lemma rescan_close:
  assumes cl: "clean st" and ok: "state_ok st" and q: "quiet st seg (CHR '')'' # t')"
    and ns: "\<not> in_string (scan_loop st seg (CHR '')'' # t'))"
    and it: "in_tblproperties (scan_loop st seg (CHR '')'' # t'))"
  shows "\<exists>out. clean (scan_loop st (seg @ '')'') t') \<and> state_ok (scan_loop st (seg @ '')'') t')
           \<and> finish (scan_loop st (seg @ '')'') t') = finish st @ out
           \<and> (\<forall>st' u'. clean st' \<and> state_ok st' \<longrightarrow>
                 clean (scan_loop st' (concat out) u') \<and> state_ok (scan_loop st' (concat out) u')
                 \<and> finish (scan_loop st' (concat out) u') = finish st' @ out)"
proof -
  let ?S = "scan_loop st seg (CHR '')'' # t')"
  let ?C = "scan_loop st (seg @ '')'') t'"
  define x where "x = dropWhile is_space seg"
  define w1 where "w1 = takeWhile is_space seg"
  have seg: "seg = w1 @ x @ []" by (simp add: x_def w1_def)
  have w1: "\<forall>c \<in> set w1. is_space c" by (auto simp: w1_def dest: set_takeWhileD)
  have w2: "\<forall>c \<in> set ([]::string). is_space c" by simp
  have par: "\<not> is_space (CHR '')'')" by (simp add: is_space_def)
  have e: "strip (seg @ '')'') = x @ '')''" using par by (simp add: strip_snoc_nonspace x_def)
  have e': "strip (x @ '')'') = x @ '')''"
    using par by (simp add: strip_snoc_nonspace x_def dropWhile_idem)
  from quiet_scan_loop [OF q] cl have sS: "statements ?S = statements st"
    and cS: "current ?S = seg" by (simp_all add: clean_def)
  have C: "?C = ?S\<lparr>in_tblproperties := False,
      statements := statements st @ [x @ '')''], current := []\<rparr>"
    using scan_loop_append [of st seg "'')''" t'] step_in_tbl_close [OF it, of t'] sS cS e
    by (simp del: step.simps)
  have okC: "state_ok ?C" using ok by (rule state_ok_scan_loop)
  have clC: "clean ?C" using C ns by (simp add: clean_def)
  have fin: "finish st = map (\<lambda>s. s @ '';'') (statements st)" using cl ok by (rule finish_clean)
  have 1: "finish ?C = finish st @ [(x @ '')'') @ '';'']"
    using finish_clean [OF clC okC] C fin by simp
  from q seg have q': "quiet st (w1 @ x @ []) (CHR '')'' # t')" by simp
  have 2: "clean (scan_loop st' (concat [(x @ '')'') @ '';'']) u')
      \<and> state_ok (scan_loop st' (concat [(x @ '')'') @ '';'']) u')
      \<and> finish (scan_loop st' (concat [(x @ '')'') @ '';'']) u') =
          finish st' @ [(x @ '')'') @ '';'']"
    if cl': "clean st'" and ok': "state_ok st'" for st' u'
  proof -
    let ?F' = "scan_loop st' x (CHR '')'' # CHR '';'' # u')"
    let ?C1 = "step ?F' (CHR '')'' # CHR '';'' # u')"
    let ?C' = "step ?C1 (CHR '';'' # u')"
    have sm: "same_mode st st'" using cl cl' by (simp add: clean_def same_mode_def)
    from replay [OF w1 w2 q' sm ok, where p' = "CHR '')'' # CHR '';'' # u'"]
    have qq: "quiet st' x (CHR '')'' # CHR '';'' # u')"
      and sm': "same_mode (scan_loop st (w1 @ x @ []) (CHR '')'' # t')) ?F'" by simp_all
    from sm' seg ns it have ns': "\<not> in_string ?F'" and it': "in_tblproperties ?F'"
      by (simp_all add: same_mode_def)
    from quiet_scan_loop [OF qq] cl' have s': "statements ?F' = statements st'"
      and c': "current ?F' = x" by (simp_all add: clean_def)
    have C1: "?C1 = ?F'\<lparr>in_tblproperties := False,
        statements := statements st' @ [x @ '')''], current := []\<rparr>"
      using step_in_tbl_close [OF it', of "CHR '';'' # u'"] s' c' e' by simp
    then have ns1: "\<not> in_string ?C1" and nt1: "\<not> in_tblproperties ?C1" using ns' by simp_all
    have C': "?C' = ?C1\<lparr>statements := emit (current ?C1) (statements ?C1), current := []\<rparr>"
      using ns1 nt1 by (rule step_semicolon)
    have run: "scan_loop st' (concat [(x @ '')'') @ '';'']) u' = ?C'"
      using scan_loop_append [of st' x "'')'' @ '';''" u'] by (simp del: step.simps)
    have "state_ok ?F'" using ok' by (rule state_ok_scan_loop)
    then have "state_ok ?C1" by (rule state_ok_step)
    then have okC': "state_ok ?C'" by (rule state_ok_step)
    have clC': "clean ?C'" unfolding C' using ns1 nt1 by (simp add: clean_def)
    have st: "statements ?C' = statements st' @ [x @ '')'']"
      unfolding C' using C1 by (simp add: emit_blank)
    have "finish st' = map (\<lambda>s. s @ '';'') (statements st')" using cl' ok' by (rule finish_clean)
    with finish_clean [OF clC' okC'] st
    have "finish ?C' = finish st' @ [(x @ '')'') @ '';'']" by simp
    with clC' okC' run show ?thesis by simp
  qed
  from 1 2 clC okC show ?thesis by blast
qed

lemma rescan:
  assumes "clean st" and "state_ok st" and "\<not> closes_in_literal st t []"
  shows "\<exists>out. finish (scan_loop st t []) = finish st @ out \<and>
           (\<forall>st'. clean st' \<and> state_ok st' \<longrightarrow>
              finish (scan_loop st' (concat out) []) = finish st' @ out)"
  using assms
proof (induction t arbitrary: st rule: length_induct)
  case (1 t)
  note cl = \<open>clean st\<close> and ok = \<open>state_ok st\<close> and nl = \<open>\<not> closes_in_literal st t []\<close>
  show ?case
  proof (cases "quiet st t []")
    case True
    with cl ok show ?thesis by (rule rescan_quiet)
  next
    case False
    from first_boundary [OF False] obtain seg b t' where t: "t = seg @ b # t'"
      and q: "quiet st seg (b # t')" and bd: "boundary (scan_loop st seg (b # t')) b"
      by auto
    let ?S = "scan_loop st seg (b # t')"
    let ?C = "scan_loop st (seg @ [b]) t'"
    from nl t have "\<not> closes_in_literal st ((seg @ [b]) @ t') []" by simp
    with closes_in_literal_append [of st "seg @ [b]" t' "[]"]
    have nl1: "\<not> closes_in_literal st (seg @ [b]) t'"
      and nl2: "\<not> closes_in_literal ?C t' []"
      by simp_all
    from nl1 closes_in_literal_append [of st seg "[b]" t']
    have "\<not> closes_in_literal ?S [b] t'" by (simp del: closes_in_literal.simps)
    then have nlb: "\<not> (b = CHR '')'' \<and> in_tblproperties ?S \<and> in_string ?S)" by simp
    have "\<exists>out. clean ?C \<and> state_ok ?C \<and> finish ?C = finish st @ out
        \<and> (\<forall>st' u'. clean st' \<and> state_ok st' \<longrightarrow>
              clean (scan_loop st' (concat out) u') \<and> state_ok (scan_loop st' (concat out) u')
              \<and> finish (scan_loop st' (concat out) u') = finish st' @ out)"
    proof (cases "b = CHR '';''")
      case True
      with bd have "\<not> in_string ?S" and "\<not> in_tblproperties ?S" by (auto simp: boundary_def)
      with rescan_semicolon [OF cl ok, of seg t'] q True show ?thesis by simp
    next
      case False
      with bd have b: "b = CHR '')''" and it: "in_tblproperties ?S" by (auto simp: boundary_def)
      with nlb have "\<not> in_string ?S" by simp
      with rescan_close [OF cl ok, of seg t'] q b it show ?thesis by simp
    qed
    then obtain o1 where clC: "clean ?C" and okC: "state_ok ?C"
      and f1: "finish ?C = finish st @ o1"
      and r1: "\<And>st' u'. clean st' \<Longrightarrow> state_ok st' \<Longrightarrow>
            clean (scan_loop st' (concat o1) u') \<and> state_ok (scan_loop st' (concat o1) u')
            \<and> finish (scan_loop st' (concat o1) u') = finish st' @ o1"
      by blast
    have "length t' < length t" using t by simp
    with "1.IH" clC okC nl2 obtain o2 where
      f2: "finish (scan_loop ?C t' []) = finish ?C @ o2"
      and r2: "\<And>st'. clean st' \<Longrightarrow> state_ok st' \<Longrightarrow>
            finish (scan_loop st' (concat o2) []) = finish st' @ o2"
      by blast
    have run: "scan_loop st t [] = scan_loop ?C t' []"
      using scan_loop_append [of st "seg @ [b]" t' "[]"] t by simp
    have a: "finish (scan_loop st t []) = finish st @ (o1 @ o2)"
      using run f1 f2 by simp
    have b: "finish (scan_loop st' (concat (o1 @ o2)) []) = finish st' @ (o1 @ o2)"
      if cl': "clean st'" and ok': "state_ok st'" for st'
    proof -
      let ?C' = "scan_loop st' (concat o1) (concat o2)"
      from r1 [OF cl' ok', of "concat o2"] have "clean ?C'" and "state_ok ?C'"
        and f: "finish ?C' = finish st' @ o1" by blast+
      from r2 [OF this(1,2)] f
      have "finish (scan_loop ?C' (concat o2) []) = finish st' @ o1 @ o2" by simp
      moreover have "scan_loop st' (concat (o1 @ o2)) [] = scan_loop ?C' (concat o2) []"
        using scan_loop_append [of st' "concat o1" "concat o2" "[]"] by simp
      ultimately show ?thesis by simp
    qed
    from a b show ?thesis by blast
  qed
qed

lemma clean_init: "clean init_state"
  by (simp add: clean_def init_state_def)

lemma finish_init: "finish init_state = []"
  by (simp add: finish_def init_state_def)

lemma split_statements_rescan:
  assumes "\<not> closes_in_literal init_state t []"
  shows "split_statements (concat (split_statements t)) = split_statements t"
proof -
  from rescan [OF clean_init state_ok_init assms] obtain out where
    1: "finish (scan_loop init_state t []) = finish init_state @ out"
    and 2: "\<And>st'. clean st' \<Longrightarrow> state_ok st' \<Longrightarrow>
        finish (scan_loop st' (concat out) []) = finish st' @ out"
    by blast
  from 1 have out: "split_statements t = out" by (simp add: split_statements_def finish_init)
  from 2 [OF clean_init state_ok_init]
  have "split_statements (concat out) = out" by (simp add: split_statements_def finish_init)
  with out show ?thesis by simp
qed

section \<open>Texts that the first three phases leave unchanged\<close>

lemma contains_two: "contains s [p, q] = has_pair (\<lambda>a b. a = p \<and> b = q) s"
proof (induction s)
  case Nil
  show ?case by simp
next
  case (Cons c s)
  then show ?case by (cases s) (auto simp: startswith_two)
qed

lemma has_pair_append:
  "has_pair B (a @ b) \<longleftrightarrow>
     has_pair B a \<or> has_pair B b \<or> (a \<noteq> [] \<and> b \<noteq> [] \<and> B (last a) (hd b))"
proof (induction a)
  case Nil
  show ?case by simp
next
  case (Cons x a)
  show ?case
  proof (cases a)
    case Nil
    then show ?thesis by (cases b) auto
  next
    case (Cons y r)
    with Cons.IH show ?thesis by auto
  qed
qed

lemma has_pair_sublist:
  assumes "sublist s t" and "has_pair B s"
  shows "has_pair B t"
proof -
  from assms(1) obtain ps ss where "t = ps @ s @ ss" by (auto simp: sublist_def)
  with assms(2) show ?thesis by (simp add: has_pair_append)
qed

lemma strip_line_comments_id:
  assumes "\<not> contains u ''--''"
  shows "strip_line_comments u = u"
  using assms by (induction u) simp_all

lemma strip_block_comments_id:
  assumes "\<not> contains u ''/*''"
  shows "strip_block_comments u = u"
  using assms by (induction u) simp_all

lemma splitlines_split_lf:
  assumes "\<forall>c \<in> set s. is_linebreak c \<longrightarrow> c = CHR 0x0A"
  shows "splitlines line s = split_lf line s"
  using assms
proof (induction line s rule: splitlines.induct)
  case (1 line)
  show ?case by simp
next
  case (2 line c)
  then show ?case by (auto simp: is_linebreak_def)
next
  case (3 line c d cs)
  from "3.prems" have c: "is_linebreak c \<longleftrightarrow> c = CHR 0x0A"
    by (auto simp: is_linebreak_def)
  from "3.prems" have rest: "\<forall>c \<in> set (d # cs). is_linebreak c \<longrightarrow> c = CHR 0x0A" by simp
  have ncr: "c \<noteq> CHR 0x0D" using "3.prems" by (auto simp: is_linebreak_def)
  show ?case
  proof (cases "c = CHR 0x0A")
    case True
    with "3.IH"(2) [OF _ _ rest] ncr c show ?thesis by simp
  next
    case False
    with "3.IH"(3) [OF _ _ rest] ncr c show ?thesis by simp
  qed
qed

lemma strip_id:
  assumes "s \<noteq> []" and "\<not> is_space (hd s)" and "\<not> is_space (last s)"
  shows "strip s = s"
proof -
  from assms(1,2) have 1: "dropWhile is_space s = s" by (cases s) simp_all
  from assms(1,3) have "dropWhile is_space (rev s) = rev s"
    by (cases s rule: rev_cases) simp_all
  with 1 show ?thesis by (simp add: strip_def)
qed

lemma join_lines_Cons:
  "rest \<noteq> [] \<Longrightarrow> join_lines (l # rest) = l @ CHR 0x0A # join_lines rest"
  by (cases rest) simp_all

lemma join_split_lf:
  assumes "acc \<noteq> [] \<longrightarrow> \<not> is_space (hd acc)"
    and "acc = [] \<longrightarrow> s = [] \<or> \<not> is_space (hd s)"
    and "\<not> has_pair break_pair (acc @ s)"
    and "acc @ s \<noteq> [] \<longrightarrow> \<not> is_space (last (acc @ s))"
  shows "join_lines (map strip (filter (\<lambda>l. strip l \<noteq> []) (split_lf acc s))) = acc @ s"
  using assms
proof (induction s arbitrary: acc)
  case Nil
  show ?case
  proof (cases "acc = []")
    case True
    then show ?thesis by simp
  next
    case False
    with Nil have "strip acc = acc" by (intro strip_id) simp_all
    with False show ?thesis by simp
  qed
next
  case (Cons c s)
  have lf: "is_space (CHR 0x0A)" by (simp add: is_space_def)
  show ?case
  proof (cases "c = CHR 0x0A")
    case True
    from Cons.prems(2) True lf have acc: "acc \<noteq> []" by auto
    from Cons.prems(3) acc have nb: "\<not> break_pair (last acc) c" and np: "\<not> has_pair break_pair (c # s)"
      by (simp_all add: has_pair_append)
    from nb True have la: "\<not> is_space (last acc)" by (simp add: break_pair_def)
    from acc Cons.prems(1) la have sa: "strip acc = acc" by (intro strip_id) simp_all
    from Cons.prems(4) True lf have s: "s \<noteq> []" by auto
    then obtain d s' where ds: "s = d # s'" by (cases s) auto
    with np True have hd: "\<not> is_space (hd s)" and np': "\<not> has_pair break_pair s"
      by (simp_all add: break_pair_def)
    from Cons.prems(4) s have ls: "\<not> is_space (last s)" by simp
    have IH: "join_lines (map strip (filter (\<lambda>l. strip l \<noteq> []) (split_lf [] s))) = [] @ s"
      using hd np' ls s by (intro Cons.IH) simp_all
    let ?R = "map strip (filter (\<lambda>l. strip l \<noteq> []) (split_lf [] s))"
    from IH s have "?R \<noteq> []" by auto
    then have "join_lines (acc # ?R) = acc @ CHR 0x0A # join_lines ?R" by (rule join_lines_Cons)
    with IH True sa acc show ?thesis by simp
  next
    case False
    have "join_lines (map strip (filter (\<lambda>l. strip l \<noteq> []) (split_lf (acc @ [c]) s))) =
        (acc @ [c]) @ s"
    proof (rule Cons.IH)
      show "acc @ [c] \<noteq> [] \<longrightarrow> \<not> is_space (hd (acc @ [c]))"
        using Cons.prems(1,2) by (cases acc) simp_all
      show "acc @ [c] = [] \<longrightarrow> s = [] \<or> \<not> is_space (hd s)" by simp
      show "\<not> has_pair break_pair ((acc @ [c]) @ s)" using Cons.prems(3) by simp
      show "(acc @ [c]) @ s \<noteq> [] \<longrightarrow> \<not> is_space (last ((acc @ [c]) @ s))"
        using Cons.prems(4) by simp
    qed
    with False show ?thesis by simp
  qed
qed

lemma normalize_whitespace_normal:
  assumes "normal s"
  shows "normalize_whitespace s = s"
proof -
  from assms have 1: "\<forall>c \<in> set s. is_linebreak c \<longrightarrow> c = CHR 0x0A"
    and 2: "\<not> has_pair break_pair s"
    and 3: "s \<noteq> [] \<longrightarrow> \<not> is_space (hd s) \<and> \<not> is_space (last s)"
    by (simp_all add: normal_def)
  have "join_lines (map strip (filter (\<lambda>l. strip l \<noteq> []) (split_lf [] s))) = [] @ s"
    using 2 3 by (intro join_split_lf) auto
  then show ?thesis
    using splitlines_split_lf [OF 1, of "[]"] by (simp add: normalize_whitespace_def)
qed

lemma splitlines_no_breaks:
  assumes "\<forall>c \<in> set line. \<not> is_linebreak c"
  shows "\<forall>l \<in> set (splitlines line s). \<forall>c \<in> set l. \<not> is_linebreak c"
  using assms
proof (induction line s rule: splitlines.induct)
  case (1 line)
  then show ?case by simp
next
  case (2 line c)
  then show ?case by simp
next
  case (3 line c d cs)
  show ?case
  proof (cases "c = CHR 0x0D \<and> d = CHR 0x0A")
    case True
    with "3.IH"(1) "3.prems" show ?thesis by simp
  next
    case nc: False
    show ?thesis
    proof (cases "is_linebreak c")
      case True
      with "3.IH"(2) [OF nc] "3.prems" nc show ?thesis by auto
    next
      case False
      with "3.prems" have "\<forall>x \<in> set (line @ [c]). \<not> is_linebreak x" by simp
      with "3.IH"(3) [OF nc False] nc False show ?thesis by auto
    qed
  qed
qed

lemma set_strip: "set (strip s) \<subseteq> set s"
proof -
  obtain w1 w2 where "s = w1 @ strip s @ w2" by (rule strip_decomposition)
  then have "set s = set w1 \<union> set (strip s) \<union> set w2" by (metis set_append Un_assoc)
  then show ?thesis by blast
qed

lemma no_break_pair:
  assumes "CHR 0x0A \<notin> set l"
  shows "\<not> has_pair break_pair l"
  using assms
proof (induction l)
  case Nil
  show ?case by simp
next
  case (Cons a l)
  then show ?case by (cases l) (auto simp: break_pair_def)
qed

lemma join_lines_hd:
  "m \<noteq> [] \<Longrightarrow> join_lines (m # ls) \<noteq> [] \<and> hd (join_lines (m # ls)) = hd m"
  by (cases ls) simp_all

lemma normal_join_lines:
  assumes "\<forall>l \<in> set ls. l \<noteq> [] \<and> \<not> is_space (hd l) \<and> \<not> is_space (last l)
      \<and> (\<forall>c \<in> set l. \<not> is_linebreak c)"
  shows "normal (join_lines ls)"
  using assms
proof (induction ls rule: join_lines.induct)
  case 1
  show ?case by (simp add: normal_def)
next
  case (2 l)
  then have "CHR 0x0A \<notin> set l" by (auto simp: is_linebreak_def)
  with 2 show ?case by (simp add: normal_def no_break_pair)
next
  case (3 l m ls)
  let ?J = "join_lines (m # ls)"
  from "3.prems" have l: "l \<noteq> []" "\<not> is_space (hd l)" "\<not> is_space (last l)"
    "\<forall>c \<in> set l. \<not> is_linebreak c" and m: "m \<noteq> []" "\<not> is_space (hd m)" by simp_all
  from "3.prems" have "normal ?J" by (intro "3.IH") simp
  then have J1: "\<forall>c \<in> set ?J. is_linebreak c \<longrightarrow> c = CHR 0x0A"
    and J2: "\<not> has_pair break_pair ?J"
    and J3: "?J \<noteq> [] \<longrightarrow> \<not> is_space (hd ?J) \<and> \<not> is_space (last ?J)"
    by (simp_all add: normal_def)
  from join_lines_hd [OF m(1)] have Jne: "?J \<noteq> []" and Jhd: "hd ?J = hd m" by simp_all
  from l(4) have "CHR 0x0A \<notin> set l" by (auto simp: is_linebreak_def)
  then have nl: "\<not> has_pair break_pair l" by (rule no_break_pair)
  have lf: "is_space (CHR 0x0A)" by (simp add: is_space_def)
  from Jne obtain j J' where J: "?J = j # J'" by (cases ?J) auto
  with Jhd m(2) have j: "\<not> is_space j" by simp
  have a: "\<not> has_pair break_pair (CHR 0x0A # ?J)"
    using J J2 j lf by (auto simp: break_pair_def)
  have b: "\<not> break_pair (last l) (CHR 0x0A)" using l(3) lf by (auto simp: break_pair_def)
  have "\<not> has_pair break_pair (l @ CHR 0x0A # ?J)"
    using nl a b by (simp add: has_pair_append)
  moreover have "\<forall>c \<in> set (l @ CHR 0x0A # ?J). is_linebreak c \<longrightarrow> c = CHR 0x0A"
    using l(4) J1 by auto
  moreover have "\<not> is_space (hd (l @ CHR 0x0A # ?J))" using l(1,2) by simp
  moreover have "\<not> is_space (last (l @ CHR 0x0A # ?J))" using Jne J3 by simp
  ultimately show ?case by (simp add: normal_def del: join_lines.simps has_pair.simps) simp
qed

lemma normal_normalize_whitespace: "normal (normalize_whitespace y)"
proof -
  let ?ls = "map strip (filter (\<lambda>l. strip l \<noteq> []) (splitlines [] y))"
  have "l \<noteq> [] \<and> \<not> is_space (hd l) \<and> \<not> is_space (last l) \<and> (\<forall>c \<in> set l. \<not> is_linebreak c)"
    if "l \<in> set ?ls" for l
  proof -
    from that obtain r where r: "r \<in> set (splitlines [] y)" and ne: "strip r \<noteq> []"
      and l: "l = strip r" by auto
    from splitlines_no_breaks [of "[]" y] r have "\<forall>c \<in> set r. \<not> is_linebreak c" by simp
    with set_strip [of r] have "\<forall>c \<in> set (strip r). \<not> is_linebreak c" by blast
    with ne strip_hd [OF ne] strip_last [OF ne] l show ?thesis by simp
  qed
  then have "normal (join_lines ?ls)" by (intro normal_join_lines) blast
  then show ?thesis by (simp add: normalize_whitespace_def)
qed

section \<open>The statements are pieces of the text\<close>

lemma sublist_strip: "sublist (strip s) s"
proof -
  obtain w1 w2 where "s = w1 @ strip s @ w2" by (rule strip_decomposition)
  then show ?thesis by (metis sublist_appendI)
qed

lemma sublist_chain:
  assumes "sublist a b" and "sublist b c"
  shows "sublist a c"
proof -
  from assms obtain p1 s1 p2 s2 where "b = p1 @ a @ s1" and "c = p2 @ b @ s2"
    by (auto simp: sublist_def)
  then have "c = (p2 @ p1) @ a @ (s1 @ s2)" by simp
  then show ?thesis by (metis sublist_appendI)
qed

lemma suffix_of_prefix_sublist:
  assumes "suffix x pfx"
  shows "sublist x (pfx @ rest)"
proof -
  from assms obtain zs where "pfx = zs @ x" by (auto simp: suffix_def)
  then have "pfx @ rest = zs @ x @ rest" by simp
  then show ?thesis by (metis sublist_appendI)
qed

lemma step_sublists:
  assumes st: "\<forall>s \<in> set (statements st). sublist s (pfx @ c # rest)"
    and cur: "suffix (current st) pfx"
  shows "(\<forall>s \<in> set (statements (step st (c # cs))). sublist s (pfx @ c # rest))
       \<and> suffix (current (step st (c # cs))) (pfx @ [c])"
proof -
  have app: "suffix (current st @ [c]) (pfx @ [c])" using cur by simp
  have whole: "sublist (current st @ [c]) (pfx @ c # rest)"
    using suffix_of_prefix_sublist [OF app, of rest] by simp
  have part: "sublist (current st) (pfx @ c # rest)"
    using cur by (rule suffix_of_prefix_sublist)
  show ?thesis
  proof (cases rule: step_cases [of c cs st])
    case keyword
    with st app show ?thesis by simp
  next
    case region_close
    have "sublist (strip (current st @ '')'')) (current st @ '')'')" by (rule sublist_strip)
    with whole region_close(3) have "sublist (strip (current st @ '')'')) (pfx @ c # rest)"
      using sublist_chain by blast
    with st region_close show ?thesis by simp
  next
    case region
    with st app show ?thesis by simp
  next
    case quote_close
    with st app show ?thesis by simp
  next
    case quoted
    with st app show ?thesis by simp
  next
    case quote_open
    with st app show ?thesis by simp
  next
    case semicolon
    have "sublist (strip (current st)) (pfx @ c # rest)"
      using sublist_strip part by (rule sublist_chain)
    with st semicolon show ?thesis by (auto simp: emit_def Let_def)
  next
    case plain
    with st app show ?thesis by simp
  qed
qed

lemma scan_loop_sublists:
  assumes "\<forall>s \<in> set (statements st). sublist s (pfx @ body @ post)"
    and "suffix (current st) pfx"
  shows "(\<forall>s \<in> set (statements (scan_loop st body post)). sublist s (pfx @ body @ post))
       \<and> suffix (current (scan_loop st body post)) (pfx @ body)"
  using assms
proof (induction body arbitrary: st pfx)
  case Nil
  then show ?case by simp
next
  case (Cons c body)
  from Cons.prems have 1: "\<forall>s \<in> set (statements st). sublist s (pfx @ c # (body @ post))"
    by simp
  from step_sublists [OF 1 Cons.prems(2), of "body @ post"]
  have a: "\<forall>s \<in> set (statements (step st (c # body @ post))).
      sublist s ((pfx @ [c]) @ body @ post)"
    and b: "suffix (current (step st (c # body @ post))) (pfx @ [c])" by simp_all
  from Cons.IH [OF a b] show ?case by (simp del: step.simps)
qed

lemma split_statements_pieces:
  obtains ss where "split_statements t = map terminate ss"
    and "\<forall>s \<in> set ss. s \<noteq> [] \<and> strip s = s \<and> sublist s t"
proof -
  let ?F = "scan_loop init_state t []"
  let ?raw = "if strip (current ?F) \<noteq> [] then statements ?F @ [strip (current ?F)]
              else statements ?F"
  let ?ss = "filter (\<lambda>s. strip s \<noteq> []) ?raw"
  have ok: "state_ok ?F" using state_ok_init by (rule state_ok_scan_loop)
  have "\<forall>s \<in> set (statements init_state). sublist s ([] @ t @ [])"
    and "suffix (current init_state) []" by (simp_all add: init_state_def)
  from scan_loop_sublists [OF this]
  have sub: "\<forall>s \<in> set (statements ?F). sublist s t" and suf: "suffix (current ?F) t"
    by simp_all
  from suf have "sublist (current ?F) t" by (rule suffix_imp_sublist)
  with sublist_strip have cur: "sublist (strip (current ?F)) t" by (rule sublist_chain)
  have 1: "split_statements t = map terminate ?ss"
    by (simp add: split_statements_def finish_def Let_def)
  have 2: "\<forall>s \<in> set ?ss. s \<noteq> [] \<and> strip s = s \<and> sublist s t"
    using ok sub cur by (auto simp: state_ok_def strip_idem)
  from that [OF 1 2] show thesis .
qed

lemma terminate_cases:
  "terminate s = s \<and> endswith s '';'' \<or> terminate s = s @ '';''"
  by (simp add: terminate_def)

lemma terminate_last:
  "terminate s \<noteq> [] \<and> last (terminate s) = CHR '';''"
  using terminate_cases [of s] by (auto simp: endswith_semicolon_iff)

lemma terminate_hd: "s \<noteq> [] \<Longrightarrow> hd (terminate s) = hd s"
  using terminate_cases [of s] by auto

lemma set_terminate: "set (terminate s) \<subseteq> insert (CHR '';'') (set s)"
  using terminate_cases [of s] by auto

lemma has_pair_terminate:
  assumes "\<not> has_pair B s" and "\<And>a. \<not> B a (CHR '';'')"
  shows "\<not> has_pair B (terminate s)"
  using terminate_cases [of s] assms by (auto simp: has_pair_append)

lemma has_pair_concat_terminated:
  assumes "\<forall>s \<in> set ss. \<not> has_pair B s"
    and "\<And>a. \<not> B a (CHR '';'')" and "\<And>a. \<not> B (CHR '';'') a"
  shows "\<not> has_pair B (concat (map terminate ss))"
  using assms(1)
proof (induction ss)
  case Nil
  show ?case by simp
next
  case (Cons s ss)
  from Cons.prems have "\<not> has_pair B s" by simp
  then have 1: "\<not> has_pair B (terminate s)" using assms(2) by (rule has_pair_terminate)
  from Cons have 2: "\<not> has_pair B (concat (map terminate ss))" by simp
  from terminate_last [of s] assms(3)
  have 3: "\<not> B (last (terminate s)) (hd (concat (map terminate ss)))" by simp
  from 1 2 3 show ?case by (simp add: has_pair_append)
qed

lemma concat_terminated_ends:
  assumes "ss \<noteq> []" and "\<forall>s \<in> set ss. s \<noteq> []"
  shows "concat (map terminate ss) \<noteq> []"
    and "hd (concat (map terminate ss)) = hd (hd ss)"
    and "last (concat (map terminate ss)) = CHR '';''"
proof -
  from assms obtain s rest where ss: "ss = s # rest" and s: "s \<noteq> []" by (cases ss) auto
  from terminate_last [of s] have ne: "terminate s \<noteq> []" by simp
  then show "concat (map terminate ss) \<noteq> []" using ss by simp
  show "hd (concat (map terminate ss)) = hd (hd ss)"
    using ss ne terminate_hd [OF s] by simp
  from assms(1) obtain init l where il: "ss = init @ [l]" by (cases ss rule: rev_cases) auto
  with terminate_last [of l] show "last (concat (map terminate ss)) = CHR '';''" by simp
qed

lemma set_concat_terminated:
  assumes "\<forall>s \<in> set ss. sublist s t"
  shows "set (concat (map terminate ss)) \<subseteq> insert (CHR '';'') (set t)"
proof
  fix c
  assume "c \<in> set (concat (map terminate ss))"
  then obtain s where s: "s \<in> set ss" and c: "c \<in> set (terminate s)" by auto
  from s assms have "set s \<subseteq> set t" by (auto dest: set_mono_sublist)
  with c set_terminate [of s] show "c \<in> insert (CHR '';'') (set t)" by blast
qed

lemma normal_concat_terminated:
  assumes t: "normal t"
    and ss: "\<forall>s \<in> set ss. s \<noteq> [] \<and> strip s = s \<and> sublist s t"
  shows "normal (concat (map terminate ss))"
proof -
  let ?u = "concat (map terminate ss)"
  from t have t1: "\<forall>c \<in> set t. is_linebreak c \<longrightarrow> c = CHR 0x0A"
    and t2: "\<not> has_pair break_pair t" by (simp_all add: normal_def)
  have semi: "\<not> is_space (CHR '';'')" "\<not> is_linebreak (CHR '';'')"
    by (simp_all add: is_space_def is_linebreak_def)
  from ss have "set ?u \<subseteq> insert (CHR '';'') (set t)" by (intro set_concat_terminated) blast
  with t1 semi(2) have 1: "\<forall>c \<in> set ?u. is_linebreak c \<longrightarrow> c = CHR 0x0A" by auto
  from ss t2 have "\<forall>s \<in> set ss. \<not> has_pair break_pair s"
    using has_pair_sublist by blast
  then have 2: "\<not> has_pair break_pair ?u"
    using semi(1) by (intro has_pair_concat_terminated) (auto simp: break_pair_def)
  have 3: "\<not> is_space (hd ?u) \<and> \<not> is_space (last ?u)" if "?u \<noteq> []"
  proof -
    from that have ne: "ss \<noteq> []" by auto
    from ss have all: "\<forall>s \<in> set ss. s \<noteq> []" by blast
    from ne ss have "hd ss \<noteq> []" and "strip (hd ss) = hd ss" by simp_all
    then have "\<not> is_space (hd (hd ss))" using strip_hd [of "hd ss"] by simp
    with concat_terminated_ends(2,3) [OF ne all] semi(1) show ?thesis by simp
  qed
  from 1 2 3 show ?thesis by (simp add: normal_def)
qed

lemma contains_concat_terminated:
  assumes t: "\<not> contains t [p, q]" and p: "p \<noteq> CHR '';''" and q: "q \<noteq> CHR '';''"
    and ss: "\<forall>s \<in> set ss. sublist s t"
  shows "\<not> contains (concat (map terminate ss)) [p, q]"
proof -
  from t have "\<not> has_pair (\<lambda>a b. a = p \<and> b = q) t" by (simp add: contains_two)
  with ss have "\<forall>s \<in> set ss. \<not> has_pair (\<lambda>a b. a = p \<and> b = q) s"
    using has_pair_sublist by blast
  then have "\<not> has_pair (\<lambda>a b. a = p \<and> b = q) (concat (map terminate ss))"
    using p q by (intro has_pair_concat_terminated) auto
  then show ?thesis by (simp add: contains_two)
qed

lemma split_sql_statements_rescan:
  assumes t: "t = normalize_whitespace (strip_block_comments (strip_line_comments x))"
    and dashes: "\<not> contains t ''--''" and slashes: "\<not> contains t ''/*''"
    and nl: "\<not> closes_in_literal init_state t []"
  shows "split_sql_statements (concat (split_sql_statements x)) = split_sql_statements x"
proof -
  obtain ss where out: "split_statements t = map terminate ss"
    and ss: "\<forall>s \<in> set ss. s \<noteq> [] \<and> strip s = s \<and> sublist s t"
    by (rule split_statements_pieces)
  let ?u = "concat (map terminate ss)"
  have nt: "normal t" unfolding t by (rule normal_normalize_whitespace)
  from ss have sub: "\<forall>s \<in> set ss. sublist s t" by blast
  have 1: "strip_line_comments ?u = ?u"
    using dashes sub by (intro strip_line_comments_id contains_concat_terminated) simp_all
  have 2: "strip_block_comments ?u = ?u"
    using slashes sub by (intro strip_block_comments_id contains_concat_terminated) simp_all
  have 3: "normalize_whitespace ?u = ?u"
    using nt ss by (intro normalize_whitespace_normal normal_concat_terminated)
  have x: "split_sql_statements x = split_statements t"
    by (simp add: split_sql_statements_def t)
  have "split_sql_statements ?u = split_statements ?u"
    by (simp add: split_sql_statements_def 1 2 3)
  also have "\<dots> = split_statements (concat (split_statements t))" by (simp add: out)
  also have "\<dots> = split_statements t" using nl by (rule split_statements_rescan)
  finally show ?thesis by (simp add: x out)
qed

section \<open>Splitting the result again\<close>

text \<open>
  Claim C7, as amended. The scan is a fixed point on its own result for every text on which
  the loop closes no TBLPROPERTIES region while a literal is open: the statements returned
  for it, put one behind the other, are split into the same statements. The same holds of
  the whole method for every input whose text after the first three phases, \<open>t\<close>, is such
  a text and holds neither two dashes in a row nor the opening of a multi-line comment.
\<close>

theorem split_statements_fixed_point:
  assumes "\<not> closes_in_literal init_state t []"
  shows "split_statements (concat (split_statements t)) = split_statements t
       \<and> (t = normalize_whitespace (strip_block_comments (strip_line_comments x))
            \<and> \<not> contains t ''--'' \<and> \<not> contains t ''/*''
          \<longrightarrow> split_sql_statements (concat (split_sql_statements x)) =
              split_sql_statements x)"
proof -
  have "split_statements (concat (split_statements t)) = split_statements t"
    using assms by (rule split_statements_rescan)
  moreover have "split_sql_statements (concat (split_sql_statements x)) = split_sql_statements x"
    if "t = normalize_whitespace (strip_block_comments (strip_line_comments x))"
      and "\<not> contains t ''--''" and "\<not> contains t ''/*''"
    using that assms by (rule split_sql_statements_rescan)
  ultimately show ?thesis by blast
qed

theorem split_statements_fixed_point_witness:
  "split_statements
     (''SELECT 1 ;;  SELECT 'a;b' ;'' @ CHR 0x0A #
        ''CREATE TABLE t (i INT) TBLPROPERTIES (k = 1); x'') =
     [''SELECT 1;'', ''SELECT 'a;b';'',
        ''CREATE TABLE t (i INT) TBLPROPERTIES (k = 1);'', ''x;'']
   \<and> split_statements (concat (split_statements
     (''SELECT 1 ;;  SELECT 'a;b' ;'' @ CHR 0x0A #
        ''CREATE TABLE t (i INT) TBLPROPERTIES (k = 1); x''))) =
     split_statements
     (''SELECT 1 ;;  SELECT 'a;b' ;'' @ CHR 0x0A #
        ''CREATE TABLE t (i INT) TBLPROPERTIES (k = 1); x'')
   \<and> split_sql_statements
     (''  SELECT 1 ;; /* note */ SELECT 'a;b' ;'' @ CHR 0x0A #
        '' CREATE TABLE t (i INT) TBLPROPERTIES (k = 1); x -- bye'') =
     [''SELECT 1;'', ''SELECT 'a;b';'',
        ''CREATE TABLE t (i INT) TBLPROPERTIES (k = 1);'', ''x;'']
   \<and> split_sql_statements (concat (split_sql_statements
     (''  SELECT 1 ;; /* note */ SELECT 'a;b' ;'' @ CHR 0x0A #
        '' CREATE TABLE t (i INT) TBLPROPERTIES (k = 1); x -- bye''))) =
     split_sql_statements
     (''  SELECT 1 ;; /* note */ SELECT 'a;b' ;'' @ CHR 0x0A #
        '' CREATE TABLE t (i INT) TBLPROPERTIES (k = 1); x -- bye'')"
proof -
  have 1: "\<not> closes_in_literal init_state
     (''SELECT 1 ;;  SELECT 'a;b' ;'' @ CHR 0x0A #
        ''CREATE TABLE t (i INT) TBLPROPERTIES (k = 1); x'') []"
    by code_simp
  have 2: "split_statements
     (''SELECT 1 ;;  SELECT 'a;b' ;'' @ CHR 0x0A #
        ''CREATE TABLE t (i INT) TBLPROPERTIES (k = 1); x'') =
     [''SELECT 1;'', ''SELECT 'a;b';'',
        ''CREATE TABLE t (i INT) TBLPROPERTIES (k = 1);'', ''x;'']"
    by code_simp
  have 3: "(''SELECT 1 ;;  SELECT 'a;b' ;'' @ CHR 0x0A #
        ''CREATE TABLE t (i INT) TBLPROPERTIES (k = 1); x'') =
     normalize_whitespace (strip_block_comments (strip_line_comments
     (''  SELECT 1 ;; /* note */ SELECT 'a;b' ;'' @ CHR 0x0A #
        '' CREATE TABLE t (i INT) TBLPROPERTIES (k = 1); x -- bye'')))"
    by code_simp
  have 4: "\<not> contains
     (''SELECT 1 ;;  SELECT 'a;b' ;'' @ CHR 0x0A #
        ''CREATE TABLE t (i INT) TBLPROPERTIES (k = 1); x'') ''--''"
    by code_simp
  have 5: "\<not> contains
     (''SELECT 1 ;;  SELECT 'a;b' ;'' @ CHR 0x0A #
        ''CREATE TABLE t (i INT) TBLPROPERTIES (k = 1); x'') ''/*''"
    by code_simp
  have 6: "split_sql_statements
     (''  SELECT 1 ;; /* note */ SELECT 'a;b' ;'' @ CHR 0x0A #
        '' CREATE TABLE t (i INT) TBLPROPERTIES (k = 1); x -- bye'') =
     [''SELECT 1;'', ''SELECT 'a;b';'',
        ''CREATE TABLE t (i INT) TBLPROPERTIES (k = 1);'', ''x;'']"
    by code_simp
  from split_statements_fixed_point [OF 1]
  have a: "split_statements (concat (split_statements
     (''SELECT 1 ;;  SELECT 'a;b' ;'' @ CHR 0x0A #
        ''CREATE TABLE t (i INT) TBLPROPERTIES (k = 1); x''))) =
     split_statements
     (''SELECT 1 ;;  SELECT 'a;b' ;'' @ CHR 0x0A #
        ''CREATE TABLE t (i INT) TBLPROPERTIES (k = 1); x'')"
    by (rule conjunct1)
  from split_statements_fixed_point [OF 1, of
     "(''  SELECT 1 ;; /* note */ SELECT 'a;b' ;'' @ CHR 0x0A #
        '' CREATE TABLE t (i INT) TBLPROPERTIES (k = 1); x -- bye'')"] 3 4 5
  have b: "split_sql_statements (concat (split_sql_statements
     (''  SELECT 1 ;; /* note */ SELECT 'a;b' ;'' @ CHR 0x0A #
        '' CREATE TABLE t (i INT) TBLPROPERTIES (k = 1); x -- bye''))) =
     split_sql_statements
     (''  SELECT 1 ;; /* note */ SELECT 'a;b' ;'' @ CHR 0x0A #
        '' CREATE TABLE t (i INT) TBLPROPERTIES (k = 1); x -- bye'')"
    by blast
  from 2 a 6 b show ?thesis by (intro conjI)
qed

text \<open>
  The claim as stated fails when the keyword stands in a literal: the closing parenthesis
  ends the first statement inside the literal, the semicolon appended to that statement is
  read as part of the literal in the second scan, and the second statement changes. For the
  whole method it fails also where the deletion of a comment brings two dashes together (the
  second run reads them as a comment), and where a protected comment is cut at a semicolon
  and loses its marker (the second run deletes it).
\<close>

theorem split_statements_fixed_point_counterexample:
  "closes_in_literal init_state (''SELECT '' @ CHR 0x27 # ''TBLPROPERTIES (x)'' @ CHR 0x27 # '' AS c;'') []
   \<and> split_statements (''SELECT '' @ CHR 0x27 # ''TBLPROPERTIES (x)'' @ CHR 0x27 # '' AS c;'') =
       [''SELECT '' @ CHR 0x27 # ''TBLPROPERTIES (x);'', CHR 0x27 # '' AS c;'']
   \<and> split_statements (concat (split_statements (''SELECT '' @ CHR 0x27 # ''TBLPROPERTIES (x)'' @ CHR 0x27 # '' AS c;''))) =
       [''SELECT '' @ CHR 0x27 # ''TBLPROPERTIES (x);'', '';'' @ CHR 0x27 # '' AS c;'']
   \<and> split_statements (concat (split_statements (''SELECT '' @ CHR 0x27 # ''TBLPROPERTIES (x)'' @ CHR 0x27 # '' AS c;''))) \<noteq> split_statements (''SELECT '' @ CHR 0x27 # ''TBLPROPERTIES (x)'' @ CHR 0x27 # '' AS c;'')
   \<and> split_sql_statements (concat (split_sql_statements (''SELECT '' @ CHR 0x27 # ''TBLPROPERTIES (x)'' @ CHR 0x27 # '' AS c;''))) \<noteq> split_sql_statements (''SELECT '' @ CHR 0x27 # ''TBLPROPERTIES (x)'' @ CHR 0x27 # '' AS c;'')
   \<and> split_sql_statements ''a -/**/- b; c'' = [''a -- b;'', ''c;'']
   \<and> split_sql_statements (concat (split_sql_statements ''a -/**/- b; c'')) = [''a;'']
   \<and> split_sql_statements ''/* CREATE ; */ x;'' = [''/* CREATE;'', ''*/ x;'']
   \<and> split_sql_statements (concat (split_sql_statements ''/* CREATE ; */ x;'')) = [''x;'']"
  by code_simp

end
